theory Spec2Isabelle
  imports Main "HOL-Library.Word"
begin

section \<open>The editor buffer of buffer.cpp as a linked list in an explicit heap\<close>

text \<open>
  The source keeps the text in a singly linked list of cells. The first cell is a dummy
  whose \<open>ch\<close> field is never written; \<open>start\<close> points to it, and \<open>cursor\<close> points to the
  cell holding the character immediately to the left of the cursor (to the dummy when the
  cursor is at position 0). The model keeps the cells in an explicit heap, so that every
  pointer assignment of the source is a step of the model.

  \<^item> A pointer is an \<open>addr option\<close>; \<open>None\<close> is \<open>NULL\<close>.
  \<^item> The heap is a list of slots: address \<open>a\<close> is slot \<open>a\<close>, \<open>new Cell\<close> appends a slot,
    \<open>delete\<close> empties one. A slot that is empty or beyond the end is not allocated.
  \<^item> Dereferencing \<open>NULL\<close> or a pointer to a slot that is not allocated is an error value.
  \<^item> A loop that follows links is a \<open>partial_function\<close> in the option monad: \<open>None\<close> means
    that the loop never returns.
  \<^item> The parameters \<open>nChars\<close> and \<open>nWords\<close> are 32-bit \<open>int\<close>s; \<open>size_t\<close> has 64 bits.
    The counters \<open>nChars\<close> of \<open>getCursor\<close> and \<open>i\<close> of \<open>insertString\<close> and \<open>copyWords\<close> only
    count positions of the text; they are natural numbers here, which agrees with the
    source's \<open>int\<close> for every text shorter than \<open>2^31\<close> characters. A theorem that
    states what \<open>getCursor\<close> returns carries that bound.
\<close>

subsection \<open>Cells, pointers and the heap\<close>

type_synonym addr = nat

record Cell =
  ch :: char
  link :: "addr option"

type_synonym heap = "Cell option list"

datatype error = Null_Dereference | Dangling_Dereference

definition lookup :: "heap \<Rightarrow> addr \<Rightarrow> Cell option" where
  "lookup h a = (if a < length h then h ! a else None)"

text \<open>\<open>p->field\<close>: the cell \<open>p\<close> points to, with its address.\<close>

definition deref :: "heap \<Rightarrow> addr option \<Rightarrow> error + (addr \<times> Cell)" where
  "deref h p =
     (case p of
        None \<Rightarrow> Inl Null_Dereference
      | Some a \<Rightarrow> (case lookup h a of
                     None \<Rightarrow> Inl Dangling_Dereference
                   | Some c \<Rightarrow> Inr (a, c)))"

text \<open>\<open>new Cell\<close>, with the values its two fields are assigned right after.\<close>

definition new_Cell :: "heap \<Rightarrow> Cell \<Rightarrow> addr \<times> heap" where
  "new_Cell h c = (length h, h @ [Some c])"

definition store :: "heap \<Rightarrow> addr \<Rightarrow> Cell \<Rightarrow> heap" where
  "store h a c = h[a := Some c]"

definition delete_Cell :: "heap \<Rightarrow> addr \<Rightarrow> heap" where
  "delete_Cell h a = h[a := None]"

subsection \<open>Computations that may fail or run forever\<close>

text \<open>
  \<open>Some (Inr x)\<close>: returns \<open>x\<close>; \<open>Some (Inl e)\<close>: stops with the error \<open>e\<close>; \<open>None\<close>: never
  returns.
\<close>

type_synonym 'a comp = "(error + 'a) option"

definition and_then :: "'a comp \<Rightarrow> ('a \<Rightarrow> 'b comp) \<Rightarrow> 'b comp" where
  "and_then m f =
     (case m of
        None \<Rightarrow> None
      | Some (Inl e) \<Rightarrow> Some (Inl e)
      | Some (Inr x) \<Rightarrow> f x)"

subsection \<open>The buffer\<close>

record buffer =
  heap :: heap
  start :: "addr option"
  cursor :: "addr option"
  copyString :: string

definition SPACE :: char where
  "SPACE = CHR '' ''"

definition NEWLINE :: char where
  "NEWLINE = CHR 0x0A"

text \<open>
  The constructor allocates the dummy cell and sets its link only: the \<open>ch\<close> field of the
  dummy cell keeps whatever value the allocated memory holds, here the parameter \<open>junk\<close>.
\<close>

definition EditorBuffer :: "char \<Rightarrow> buffer" where
  "EditorBuffer junk =
     (let (p, h) = new_Cell [] \<lparr>ch = junk, link = None\<rparr>
      in \<lparr>heap = h, start = Some p, cursor = Some p, copyString = []\<rparr>)"

subsection \<open>Moving the cursor forward\<close>

definition moveCursorForward :: "buffer \<Rightarrow> error + buffer" where
  "moveCursorForward s =
     (case deref (heap s) (cursor s) of
        Inl e \<Rightarrow> Inl e
      | Inr (a, c) \<Rightarrow> if link c \<noteq> None then Inr (s\<lparr>cursor := link c\<rparr>) else Inr s)"

text \<open>
  The loops of \<open>moveCursorForwardWord\<close> and \<open>deleteWord\<close> test
  \<open>cursor->link != NULL\<close> and then \<open>cursor->link->ch\<close>: \<open>next_ch\<close> is \<open>None\<close> when the link
  is \<open>NULL\<close> and the character of the next cell otherwise.
\<close>

definition next_ch :: "buffer \<Rightarrow> error + char option" where
  "next_ch s =
     (case deref (heap s) (cursor s) of
        Inl e \<Rightarrow> Inl e
      | Inr (a, c) \<Rightarrow>
          if link c \<noteq> None then
            (case deref (heap s) (link c) of
               Inl e \<Rightarrow> Inl e
             | Inr (b, c') \<Rightarrow> Inr (Some (ch c')))
          else Inr None)"

partial_function (option) moveCursorForwardWord_loop1 :: "buffer \<Rightarrow> buffer comp" where
  "moveCursorForwardWord_loop1 s =
     (case next_ch s of
        Inl e \<Rightarrow> Some (Inl e)
      | Inr None \<Rightarrow> Some (Inr s)
      | Inr (Some x) \<Rightarrow>
          if x = SPACE \<or> x = NEWLINE then
            (case moveCursorForward s of
               Inl e \<Rightarrow> Some (Inl e)
             | Inr s' \<Rightarrow> moveCursorForwardWord_loop1 s')
          else Some (Inr s))"

partial_function (option) moveCursorForwardWord_loop2 :: "buffer \<Rightarrow> buffer comp" where
  "moveCursorForwardWord_loop2 s =
     (case next_ch s of
        Inl e \<Rightarrow> Some (Inl e)
      | Inr None \<Rightarrow> Some (Inr s)
      | Inr (Some x) \<Rightarrow>
          if x \<noteq> SPACE \<and> x \<noteq> NEWLINE then
            (case moveCursorForward s of
               Inl e \<Rightarrow> Some (Inl e)
             | Inr s' \<Rightarrow> moveCursorForwardWord_loop2 s')
          else Some (Inr s))"

definition moveCursorForwardWord :: "buffer \<Rightarrow> buffer comp" where
  "moveCursorForwardWord s =
     and_then (moveCursorForwardWord_loop1 s) moveCursorForwardWord_loop2"

subsection \<open>Moving the cursor backward\<close>

partial_function (option) moveCursorBackward_loop ::
  "heap \<Rightarrow> addr option \<Rightarrow> addr option \<Rightarrow> (addr option) comp" where
  "moveCursorBackward_loop h cp cur =
     (case deref h cp of
        Inl e \<Rightarrow> Some (Inl e)
      | Inr (a, c) \<Rightarrow>
          if link c \<noteq> cur then moveCursorBackward_loop h (link c) cur
          else Some (Inr cp))"

definition moveCursorBackward :: "buffer \<Rightarrow> buffer comp" where
  "moveCursorBackward s =
     (if cursor s \<noteq> start s then
        and_then (moveCursorBackward_loop (heap s) (start s) (cursor s))
          (\<lambda>cp. Some (Inr (s\<lparr>cursor := cp\<rparr>)))
      else Some (Inr s))"

partial_function (option) moveCursorBackwardWord_loop1 :: "buffer \<Rightarrow> buffer comp" where
  "moveCursorBackwardWord_loop1 s =
     (if cursor s \<noteq> None then
        (case deref (heap s) (cursor s) of
           Inl e \<Rightarrow> Some (Inl e)
         | Inr (a, c) \<Rightarrow>
             if ch c = SPACE \<or> ch c = NEWLINE then
               (case moveCursorBackward s of
                  None \<Rightarrow> None
                | Some (Inl e) \<Rightarrow> Some (Inl e)
                | Some (Inr s') \<Rightarrow> moveCursorBackwardWord_loop1 s')
             else Some (Inr s))
      else Some (Inr s))"

partial_function (option) moveCursorBackwardWord_loop2 :: "buffer \<Rightarrow> buffer comp" where
  "moveCursorBackwardWord_loop2 s =
     (if cursor s \<noteq> None then
        (case deref (heap s) (cursor s) of
           Inl e \<Rightarrow> Some (Inl e)
         | Inr (a, c) \<Rightarrow>
             if ch c \<noteq> SPACE \<and> ch c \<noteq> NEWLINE then
               (case moveCursorBackward s of
                  None \<Rightarrow> None
                | Some (Inl e) \<Rightarrow> Some (Inl e)
                | Some (Inr s') \<Rightarrow> moveCursorBackwardWord_loop2 s')
             else Some (Inr s))
      else Some (Inr s))"

definition moveCursorBackwardWord :: "buffer \<Rightarrow> buffer comp" where
  "moveCursorBackwardWord s =
     and_then (moveCursorBackwardWord_loop1 s) moveCursorBackwardWord_loop2"

subsection \<open>Moving the cursor to either end\<close>

definition moveCursorToStart :: "buffer \<Rightarrow> buffer" where
  "moveCursorToStart s = s\<lparr>cursor := start s\<rparr>"

partial_function (option) moveCursorToEnd :: "buffer \<Rightarrow> buffer comp" where
  "moveCursorToEnd s =
     (case deref (heap s) (cursor s) of
        Inl e \<Rightarrow> Some (Inl e)
      | Inr (a, c) \<Rightarrow>
          if link c \<noteq> None then moveCursorToEnd (s\<lparr>cursor := link c\<rparr>)
          else Some (Inr s))"

subsection \<open>Insertion\<close>

text \<open>
  The new cell is allocated with the values that \<open>cp->ch = ch\<close> and
  \<open>cp->link = cursor->link\<close> give its fields; then \<open>cursor->link = cp\<close> and \<open>cursor = cp\<close>.
\<close>

definition insertCharacter :: "char \<Rightarrow> buffer \<Rightarrow> error + buffer" where
  "insertCharacter x s =
     (case deref (heap s) (cursor s) of
        Inl e \<Rightarrow> Inl e
      | Inr (a, c) \<Rightarrow>
          (let (cp, h1) = new_Cell (heap s) \<lparr>ch = x, link = link c\<rparr>;
               h2 = store h1 a (c\<lparr>link := Some cp\<rparr>)
           in Inr (s\<lparr>heap := h2, cursor := Some cp\<rparr>)))"

function insertString_loop :: "string \<Rightarrow> nat \<Rightarrow> buffer \<Rightarrow> error + buffer" where
  "insertString_loop str i s =
     (if i < length str then
        (case insertCharacter (str ! i) s of
           Inl e \<Rightarrow> Inl e
         | Inr s' \<Rightarrow> insertString_loop str (i + 1) s')
      else Inr s)"
  by pat_completeness auto
termination
  by (relation "measure (\<lambda>(str, i, s). length str - i)") auto

declare insertString_loop.simps [simp del]

definition insertString :: "string \<Rightarrow> buffer \<Rightarrow> error + buffer" where
  "insertString str s = insertString_loop str 0 s"

subsection \<open>Deletion\<close>

definition deleteCharacter :: "buffer \<Rightarrow> error + buffer" where
  "deleteCharacter s =
     (case deref (heap s) (cursor s) of
        Inl e \<Rightarrow> Inl e
      | Inr (a, c) \<Rightarrow>
          if link c \<noteq> None then
            (case deref (heap s) (link c) of
               Inl e \<Rightarrow> Inl e
             | Inr (oldCell, c') \<Rightarrow>
                 (let h1 = store (heap s) a (c\<lparr>link := link c'\<rparr>);
                      h2 = delete_Cell h1 oldCell
                  in Inr (s\<lparr>heap := h2\<rparr>)))
          else Inr s)"

partial_function (option) deleteWord_loop1 :: "buffer \<Rightarrow> buffer comp" where
  "deleteWord_loop1 s =
     (case next_ch s of
        Inl e \<Rightarrow> Some (Inl e)
      | Inr None \<Rightarrow> Some (Inr s)
      | Inr (Some x) \<Rightarrow>
          if x = SPACE \<or> x = NEWLINE then
            (case deleteCharacter s of
               Inl e \<Rightarrow> Some (Inl e)
             | Inr s' \<Rightarrow> deleteWord_loop1 s')
          else Some (Inr s))"

partial_function (option) deleteWord_loop2 :: "buffer \<Rightarrow> buffer comp" where
  "deleteWord_loop2 s =
     (case next_ch s of
        Inl e \<Rightarrow> Some (Inl e)
      | Inr None \<Rightarrow> Some (Inr s)
      | Inr (Some x) \<Rightarrow>
          if x \<noteq> SPACE \<and> x \<noteq> NEWLINE then
            (case deleteCharacter s of
               Inl e \<Rightarrow> Some (Inl e)
             | Inr s' \<Rightarrow> deleteWord_loop2 s')
          else Some (Inr s))"

definition deleteWord :: "buffer \<Rightarrow> buffer comp" where
  "deleteWord s = and_then (deleteWord_loop1 s) deleteWord_loop2"

subsection \<open>Queries\<close>

partial_function (option) getText_loop :: "heap \<Rightarrow> addr option \<Rightarrow> string \<Rightarrow> string comp" where
  "getText_loop h cp str =
     (if cp \<noteq> None then
        (case deref h cp of
           Inl e \<Rightarrow> Some (Inl e)
         | Inr (a, c) \<Rightarrow> getText_loop h (link c) (str @ [ch c]))
      else Some (Inr str))"

text \<open>\<open>getText(const Cell *startCell)\<close>: the characters after \<open>startCell\<close>.\<close>

definition getText_from :: "buffer \<Rightarrow> addr option \<Rightarrow> string comp" where
  "getText_from s startCell =
     (case deref (heap s) startCell of
        Inl e \<Rightarrow> Some (Inl e)
      | Inr (a, c) \<Rightarrow> getText_loop (heap s) (link c) [])"

text \<open>\<open>getText()\<close> is the same loop, from \<open>start\<close>.\<close>

definition getText :: "buffer \<Rightarrow> string comp" where
  "getText s =
     (case deref (heap s) (start s) of
        Inl e \<Rightarrow> Some (Inl e)
      | Inr (a, c) \<Rightarrow> getText_loop (heap s) (link c) [])"

text \<open>
  \<open>getCursor\<close> counts the cells before the cursor. The source counts in an \<open>int\<close>
  (\<open>nChars++\<close>) and returns it; the model counts in a natural number, which is the value
  the source returns as long as the count stays below \<open>2^31\<close>. Beyond that the \<open>int\<close>
  overflows and the model says nothing about the source: every theorem that states what
  \<open>getCursor\<close> returns carries that bound.
\<close>

partial_function (option) getCursor_loop ::
  "heap \<Rightarrow> addr option \<Rightarrow> addr option \<Rightarrow> nat \<Rightarrow> nat comp" where
  "getCursor_loop h cp cur nChars =
     (if cp \<noteq> cur then
        (case deref h cp of
           Inl e \<Rightarrow> Some (Inl e)
         | Inr (a, c) \<Rightarrow> getCursor_loop h (link c) cur (nChars + 1))
      else Some (Inr nChars))"

definition getCursor :: "buffer \<Rightarrow> nat comp" where
  "getCursor s = getCursor_loop (heap s) (start s) (cursor s) 0"

subsection \<open>Copy and paste\<close>

text \<open>
  \<open>str.substr(0, n)\<close>: position 0 is never out of range, and the count is clamped to the
  size of the string.
\<close>

definition substr0 :: "string \<Rightarrow> nat \<Rightarrow> string" where
  "substr0 str n = take n str"

text \<open>
  The conversion of an \<open>int\<close> argument to the \<open>size_t\<close> parameter of \<open>substr\<close>: sign
  extension to 64 bits, read as unsigned.
\<close>

definition size_t_of_int :: "32 word \<Rightarrow> nat" where
  "size_t_of_int n = unat (scast n :: 64 word)"

definition copy :: "32 word \<Rightarrow> buffer \<Rightarrow> buffer comp" where
  "copy nChars s =
     and_then (getText_from s (cursor s))
       (\<lambda>str. Some (Inr (s\<lparr>copyString := substr0 str (size_t_of_int nChars)\<rparr>)))"

text \<open>The first \<open>for\<close> loop of \<open>copyWords\<close>: past the blanks.\<close>

function copyWords_for1 :: "string \<Rightarrow> nat \<Rightarrow> nat" where
  "copyWords_for1 charString i =
     (if i < length charString then
        (if charString ! i = SPACE \<or> charString ! i = NEWLINE
         then copyWords_for1 charString (i + 1)
         else i)
      else i)"
  by pat_completeness auto
termination
  by (relation "measure (\<lambda>(charString, i). length charString - i)") auto

declare copyWords_for1.simps [simp del]

text \<open>The second \<open>for\<close> loop: up to the next blank, where it decrements \<open>nWords\<close>.\<close>

function copyWords_for2 :: "string \<Rightarrow> nat \<Rightarrow> 32 word \<Rightarrow> nat \<times> 32 word" where
  "copyWords_for2 charString i nWords =
     (if i < length charString then
        (if charString ! i = SPACE \<or> charString ! i = NEWLINE
         then (i, nWords - 1)
         else copyWords_for2 charString (i + 1) nWords)
      else (i, nWords))"
  by pat_completeness auto
termination
  by (relation "measure (\<lambda>(charString, i, nWords). length charString - i)") auto

declare copyWords_for2.simps [simp del]

partial_function (option) copyWords_while :: "string \<Rightarrow> 32 word \<Rightarrow> nat \<Rightarrow> nat option" where
  "copyWords_while charString nWords i =
     (if 0 < sint nWords then
        (let i1 = copyWords_for1 charString i;
             (i2, nWords2) = copyWords_for2 charString i1 nWords;
             nWords3 = (if i2 = length charString then 0 else nWords2)
         in copyWords_while charString nWords3 i2)
      else Some i)"

definition copyWords :: "32 word \<Rightarrow> buffer \<Rightarrow> buffer comp" where
  "copyWords nWords s =
     and_then (getText_from s (cursor s))
       (\<lambda>charString.
          case copyWords_while charString nWords 0 of
            None \<Rightarrow> None
          | Some i \<Rightarrow> Some (Inr (s\<lparr>copyString := substr0 charString i\<rparr>)))"

definition paste :: "buffer \<Rightarrow> error + buffer" where
  "paste s = insertString (copyString s) s"

subsection \<open>The operations as a datatype\<close>

datatype operation =
    MoveCursorForward
  | MoveCursorForwardWord
  | MoveCursorBackward
  | MoveCursorBackwardWord
  | MoveCursorToStart
  | MoveCursorToEnd
  | InsertCharacter char
  | InsertString string
  | Copy "32 word"
  | CopyWords "32 word"
  | Paste
  | DeleteCharacter
  | DeleteWord

fun run :: "operation \<Rightarrow> buffer \<Rightarrow> buffer comp" where
  "run MoveCursorForward s = Some (moveCursorForward s)"
| "run MoveCursorForwardWord s = moveCursorForwardWord s"
| "run MoveCursorBackward s = moveCursorBackward s"
| "run MoveCursorBackwardWord s = moveCursorBackwardWord s"
| "run MoveCursorToStart s = Some (Inr (moveCursorToStart s))"
| "run MoveCursorToEnd s = moveCursorToEnd s"
| "run (InsertCharacter x) s = Some (insertCharacter x s)"
| "run (InsertString str) s = Some (insertString str s)"
| "run (Copy nChars) s = copy nChars s"
| "run (CopyWords nWords) s = copyWords nWords s"
| "run Paste s = Some (paste s)"
| "run DeleteCharacter s = Some (deleteCharacter s)"
| "run DeleteWord s = deleteWord s"


section \<open>The text and the cursor that a heap state represents\<close>

text \<open>
  \<open>chain h p es\<close>: following the links from \<open>p\<close> in the heap \<open>h\<close> visits exactly the
  allocated cells listed in \<open>es\<close>, each with its address and its character, and then
  reaches \<open>NULL\<close>.
\<close>

fun chain :: "heap \<Rightarrow> addr option \<Rightarrow> (addr \<times> char) list \<Rightarrow> bool" where
  "chain h p [] = (p = None)"
| "chain h p ((a, x) # es) =
     (p = Some a \<and> (case lookup h a of None \<Rightarrow> False | Some c \<Rightarrow> ch c = x \<and> chain h (link c) es))"

text \<open>The cells from \<open>start\<close> are \<open>es\<close> (the dummy cell first), and \<open>cursor\<close> points to cell \<open>k\<close>.\<close>

definition buffer_at :: "buffer \<Rightarrow> (addr \<times> char) list \<Rightarrow> nat \<Rightarrow> bool" where
  "buffer_at s es k \<longleftrightarrow>
     chain (heap s) (start s) es \<and> k < length es \<and> cursor s = Some (fst (es ! k))"

definition models :: "buffer \<Rightarrow> string \<Rightarrow> nat \<Rightarrow> bool" where
  "models s txt k \<longleftrightarrow> (\<exists>es. buffer_at s es k \<and> map snd (tl es) = txt)"

text \<open>
  The same, through the two queries of the class alone: \<open>getText()\<close> returns \<open>txt\<close>,
  \<open>getCursor()\<close> returns \<open>k\<close>, and \<open>k\<close> is a position of \<open>txt\<close>. The theorems about the
  operations are stated with \<open>buffer_state\<close>; \<open>buffer_state_iff\<close> shows that it holds
  exactly when the heap has the shape \<open>models\<close> describes.
\<close>

definition buffer_state :: "buffer \<Rightarrow> string \<Rightarrow> nat \<Rightarrow> bool" where
  "buffer_state s txt k \<longleftrightarrow>
     getText s = Some (Inr txt) \<and> getCursor s = Some (Inr k) \<and> k \<le> length txt"

text \<open>
  The cursor invariant: both queries return, and \<open>0 \<le> getCursor() \<le> length(getText())\<close>.
  \<open>getCursor\<close> counts in an \<open>int\<close>, which holds the positions of a text shorter than
  \<open>2^31\<close> characters only; the invariant is stated for such texts, where the natural number
  of the model is the \<open>int\<close> that the source returns.
\<close>

definition cursor_valid :: "buffer \<Rightarrow> bool" where
  "cursor_valid s =
     (case getText s of
        Some (Inr txt) \<Rightarrow>
          length txt < 2 ^ 31 \<and>
          (case getCursor s of
             Some (Inr nChars) \<Rightarrow> 0 \<le> int nChars \<and> nChars \<le> length txt
           | _ \<Rightarrow> False)
      | _ \<Rightarrow> False)"

text \<open>The test of the word loops, and the position after the blanks and the word at \<open>k\<close>.\<close>

definition blank :: "char \<Rightarrow> bool" where
  "blank x \<longleftrightarrow> x = SPACE \<or> x = NEWLINE"

definition word_end :: "string \<Rightarrow> nat \<Rightarrow> nat" where
  "word_end txt k =
     (let k1 = k + length (takeWhile blank (drop k txt))
      in k1 + length (takeWhile (\<lambda>x. \<not> blank x) (drop k1 txt)))"

text \<open>A sequence of \<open>insertCharacter\<close> calls, one for each character, in order.\<close>

fun insertCharacter_calls :: "char list \<Rightarrow> buffer \<Rightarrow> error + buffer" where
  "insertCharacter_calls [] s = Inr s"
| "insertCharacter_calls (x # xs) s =
     (case insertCharacter x s of
        Inl e \<Rightarrow> Inl e
      | Inr s' \<Rightarrow> insertCharacter_calls xs s')"

subsection \<open>Sample states\<close>

text \<open>
  The states that \<open>insertString\<close> and \<open>moveCursorToStart\<close> build from a new buffer whose dummy
  cell holds \<open>x\<close>, for the texts \<open>" a"\<close>, \<open>"hello world"\<close> and \<open>"foo bar"\<close>.
\<close>

definition blank_a_buffer :: buffer where
  "blank_a_buffer =
     \<lparr>heap = [Some \<lparr>ch = CHR ''x'', link = Some 1\<rparr>,
              Some \<lparr>ch = CHR '' '', link = Some 2\<rparr>,
              Some \<lparr>ch = CHR ''a'', link = None\<rparr>],
      start = Some 0, cursor = Some 0, copyString = []\<rparr>"

definition hello_world_buffer :: buffer where
  "hello_world_buffer =
     \<lparr>heap = [Some \<lparr>ch = CHR ''x'', link = Some 1\<rparr>,
              Some \<lparr>ch = CHR ''h'', link = Some 2\<rparr>,
              Some \<lparr>ch = CHR ''e'', link = Some 3\<rparr>,
              Some \<lparr>ch = CHR ''l'', link = Some 4\<rparr>,
              Some \<lparr>ch = CHR ''l'', link = Some 5\<rparr>,
              Some \<lparr>ch = CHR ''o'', link = Some 6\<rparr>,
              Some \<lparr>ch = CHR '' '', link = Some 7\<rparr>,
              Some \<lparr>ch = CHR ''w'', link = Some 8\<rparr>,
              Some \<lparr>ch = CHR ''o'', link = Some 9\<rparr>,
              Some \<lparr>ch = CHR ''r'', link = Some 10\<rparr>,
              Some \<lparr>ch = CHR ''l'', link = Some 11\<rparr>,
              Some \<lparr>ch = CHR ''d'', link = None\<rparr>],
      start = Some 0, cursor = Some 0, copyString = []\<rparr>"

definition foo_bar_buffer :: buffer where
  "foo_bar_buffer =
     \<lparr>heap = [Some \<lparr>ch = CHR ''x'', link = Some 1\<rparr>,
              Some \<lparr>ch = CHR ''f'', link = Some 2\<rparr>,
              Some \<lparr>ch = CHR ''o'', link = Some 3\<rparr>,
              Some \<lparr>ch = CHR ''o'', link = Some 4\<rparr>,
              Some \<lparr>ch = CHR '' '', link = Some 5\<rparr>,
              Some \<lparr>ch = CHR ''b'', link = Some 6\<rparr>,
              Some \<lparr>ch = CHR ''a'', link = Some 7\<rparr>,
              Some \<lparr>ch = CHR ''r'', link = None\<rparr>],
      start = Some 0, cursor = Some 0, copyString = []\<rparr>"

text \<open>The equations of the loops, for evaluating them on concrete states.\<close>

declare getText_loop.simps [code] getCursor_loop.simps [code]
  moveCursorForwardWord_loop1.simps [code] moveCursorForwardWord_loop2.simps [code]
  moveCursorBackward_loop.simps [code] moveCursorBackwardWord_loop1.simps [code]
  moveCursorBackwardWord_loop2.simps [code] moveCursorToEnd.simps [code]
  deleteWord_loop1.simps [code] deleteWord_loop2.simps [code] copyWords_while.simps [code]


section \<open>Lemmas about the heap and the cell chain\<close>

lemma lookup_store: "lookup (store h a c) b = (if b = a \<and> a < length h then Some c else lookup h b)"
  by (auto simp: lookup_def store_def)

lemma lookup_delete_Cell: "lookup (delete_Cell h a) b = (if b = a then None else lookup h b)"
  by (auto simp: lookup_def delete_Cell_def)

lemma lookup_append1: "lookup (h @ [x]) b = (if b = length h then x else lookup h b)"
  by (auto simp: lookup_def nth_append)

lemma lookup_less: "lookup h a = Some c \<Longrightarrow> a < length h"
  by (auto simp: lookup_def split: if_splits)

lemma chain_None [simp]: "chain h None es \<longleftrightarrow> es = []"
  by (cases es) auto

lemma chain_Some: "chain h (Some a) es \<longleftrightarrow>
  (\<exists>c es'. lookup h a = Some c \<and> es = (a, ch c) # es' \<and> chain h (link c) es')"
  by (cases es) (auto split: option.splits)

lemma chain_unique: "chain h p es \<Longrightarrow> chain h p es' \<Longrightarrow> es = es'"
proof (induction es arbitrary: p es')
  case Nil
  then show ?case by simp
next
  case (Cons e es)
  obtain a x where e: "e = (a, x)" by (cases e)
  from Cons.prems(1) e obtain c where c: "p = Some a" "lookup h a = Some c" "ch c = x" "chain h (link c) es"
    by (auto split: option.splits)
  from Cons.prems(2) c obtain es2 where "es' = (a, x) # es2" "chain h (link c) es2"
    by (auto simp: chain_Some)
  with Cons.IH[OF c(4)] e show ?case by simp
qed

lemma chain_append: "chain h p (es @ es') \<Longrightarrow> es' \<noteq> [] \<Longrightarrow> chain h (Some (fst (hd es'))) es'"
proof (induction es arbitrary: p)
  case Nil
  then show ?case by (cases es') auto
next
  case (Cons e es)
  then show ?case by (cases e) (auto split: option.splits)
qed

lemma chain_less: "chain h p es \<Longrightarrow> (a, x) \<in> set es \<Longrightarrow> a < length h"
  by (induction es arbitrary: p) (auto split: option.splits dest: lookup_less)

lemma chain_distinct: "chain h p es \<Longrightarrow> distinct (map fst es)"
proof (induction es arbitrary: p)
  case Nil
  then show ?case by simp
next
  case (Cons e es)
  obtain a x where e: "e = (a, x)" by (cases e)
  from Cons.prems e obtain c where c: "p = Some a" "lookup h a = Some c" "chain h (link c) es"
    by (auto split: option.splits)
  have "a \<notin> fst ` set es"
  proof
    assume "a \<in> fst ` set es"
    then obtain y where "(a, y) \<in> set es" by auto
    then obtain es1 es2 where sp: "es = es1 @ (a, y) # es2" by (auto simp: in_set_conv_decomp)
    with c(3) have "chain h (Some a) ((a, y) # es2)"
      using chain_append[of h "link c" es1 "(a, y) # es2"] by simp
    moreover from Cons.prems e have "chain h (Some a) ((a, x) # es)" by simp
    ultimately have "(a, y) # es2 = (a, x) # es" by (rule chain_unique)
    with sp show False by simp
  qed
  with Cons.IH[OF c(3)] e show ?case by simp
qed


subsection \<open>Frames, and the queries on a chain\<close>

lemma chain_frame:
  "chain h p es \<Longrightarrow> (\<And>b. b \<in> fst ` set es \<Longrightarrow> lookup h' b = lookup h b) \<Longrightarrow> chain h' p es"
proof (induction es arbitrary: p)
  case Nil
  then show ?case by simp
next
  case (Cons e es)
  obtain a x where e: "e = (a, x)" by (cases e)
  from Cons.prems(1) e obtain c where c: "p = Some a" "lookup h a = Some c" "ch c = x" "chain h (link c) es"
    by (auto split: option.splits)
  have "lookup h' a = Some c" using Cons.prems(2)[of a] e c by simp
  moreover have "chain h' (link c) es"
    by (rule Cons.IH[OF c(4)]) (simp add: Cons.prems(2))
  ultimately show ?case using e c by simp
qed

lemma chain_splice:
  "chain h p (pre @ (a, x) # post) \<Longrightarrow> lookup h' a = Some c' \<Longrightarrow> ch c' = x \<Longrightarrow>
   chain h' (link c') post' \<Longrightarrow> (\<And>b. b \<in> fst ` set pre \<Longrightarrow> lookup h' b = lookup h b) \<Longrightarrow>
   chain h' p (pre @ (a, x) # post')"
proof (induction pre arbitrary: p)
  case Nil
  then show ?case by (auto split: option.splits)
next
  case (Cons e pre)
  obtain b y where e: "e = (b, y)" by (cases e)
  from Cons.prems(1) e obtain c where c: "p = Some b" "lookup h b = Some c" "ch c = y"
      "chain h (link c) (pre @ (a, x) # post)"
    by (auto split: option.splits)
  have "lookup h' b = Some c" using Cons.prems(5)[of b] e c by simp
  moreover have "chain h' (link c) (pre @ (a, x) # post')"
    by (rule Cons.IH[OF c(4) Cons.prems(2,3,4)]) (simp add: Cons.prems(5))
  ultimately show ?case using e c by simp
qed

lemma chain_hd: "chain h p es \<Longrightarrow> p = (case es of [] \<Rightarrow> None | e # _ \<Rightarrow> Some (fst e))"
  by (cases es) auto

lemma chain_nth:
  "chain h p es \<Longrightarrow> k < length es \<Longrightarrow>
   \<exists>c. lookup h (fst (es ! k)) = Some c \<and> ch c = snd (es ! k) \<and> chain h (link c) (drop (Suc k) es)"
proof (induction es arbitrary: p k)
  case Nil
  then show ?case by simp
next
  case (Cons e es)
  obtain a x where e: "e = (a, x)" by (cases e)
  from Cons.prems(1) e obtain c where c: "p = Some a" "lookup h a = Some c" "ch c = x" "chain h (link c) es"
    by (auto split: option.splits)
  show ?case
  proof (cases k)
    case 0
    with e c show ?thesis by simp
  next
    case (Suc j)
    with Cons.prems(2) have "j < length es" by simp
    from Cons.IH[OF c(4) this] Suc show ?thesis by simp
  qed
qed

lemma chain_link:
  assumes "chain h (link c) (drop (Suc k) es)"
  shows "link c = (if Suc k < length es then Some (fst (es ! Suc k)) else None)"
proof (cases "Suc k < length es")
  case True
  then have "drop (Suc k) es = es ! Suc k # drop (Suc (Suc k)) es"
    by (simp add: Cons_nth_drop_Suc)
  with assms True show ?thesis by (cases "es ! Suc k") (auto split: option.splits)
next
  case False
  with assms show ?thesis by simp
qed

text \<open>What the cursor points to.\<close>

lemma buffer_at_deref:
  assumes "buffer_at s es k"
  obtains c where "deref (heap s) (cursor s) = Inr (fst (es ! k), c)"
    and "lookup (heap s) (fst (es ! k)) = Some c"
    and "ch c = snd (es ! k)"
    and "chain (heap s) (link c) (drop (Suc k) es)"
    and "link c = (if Suc k < length es then Some (fst (es ! Suc k)) else None)"
proof -
  from assms have ch: "chain (heap s) (start s) es" and k: "k < length es"
    and cur: "cursor s = Some (fst (es ! k))"
    by (auto simp: buffer_at_def)
  from chain_nth[OF ch k] obtain c where c: "lookup (heap s) (fst (es ! k)) = Some c"
    "ch c = snd (es ! k)" "chain (heap s) (link c) (drop (Suc k) es)" by blast
  show thesis
    by (rule that[of c]) (use c cur chain_link[OF c(3)] in \<open>auto simp: deref_def\<close>)
qed

lemma getText_loop_chain:
  "chain h p es \<Longrightarrow> getText_loop h p str = Some (Inr (str @ map snd es))"
proof (induction es arbitrary: p str)
  case Nil
  then show ?case by (subst getText_loop.simps) simp
next
  case (Cons e es)
  obtain a x where e: "e = (a, x)" by (cases e)
  from Cons.prems(1) e obtain c where c: "p = Some a" "lookup h a = Some c" "ch c = x" "chain h (link c) es"
    by (auto split: option.splits)
  show ?case
    by (subst getText_loop.simps) (simp add: c e deref_def Cons.IH[OF c(4)])
qed

lemma getText_at:
  assumes "buffer_at s es k"
  shows "getText s = Some (Inr (map snd (tl es)))"
proof -
  from assms have ch: "chain (heap s) (start s) es" and k: "0 < length es"
    by (auto simp: buffer_at_def)
  from chain_nth[OF ch k] obtain c where c: "lookup (heap s) (fst (es ! 0)) = Some c"
    "chain (heap s) (link c) (drop (Suc 0) es)" by blast
  from chain_hd[OF ch] k have "start s = Some (fst (es ! 0))" by (cases es) auto
  with c show ?thesis
    by (simp add: getText_def deref_def getText_loop_chain[OF c(2)] drop_Suc)
qed

lemma getText_from_at:
  assumes "buffer_at s es k"
  shows "getText_from s (cursor s) = Some (Inr (map snd (drop (Suc k) es)))"
proof -
  from assms obtain c where "deref (heap s) (cursor s) = Inr (fst (es ! k), c)"
    "chain (heap s) (link c) (drop (Suc k) es)" by (rule buffer_at_deref)
  then show ?thesis by (simp add: getText_from_def getText_loop_chain)
qed

lemma getCursor_loop_chain:
  "chain h p es \<Longrightarrow> k < length es \<Longrightarrow> distinct (map fst es) \<Longrightarrow>
   getCursor_loop h p (Some (fst (es ! k))) n = Some (Inr (n + k))"
proof (induction es arbitrary: p k n)
  case Nil
  then show ?case by simp
next
  case (Cons e es)
  obtain a x where e: "e = (a, x)" by (cases e)
  from Cons.prems(1) e obtain c where c: "p = Some a" "lookup h a = Some c" "ch c = x" "chain h (link c) es"
    by (auto split: option.splits)
  show ?case
  proof (cases k)
    case 0
    with e c show ?thesis by (subst getCursor_loop.simps) simp
  next
    case (Suc j)
    with Cons.prems have j: "j < length es" and d: "distinct (map fst es)"
      and ne: "a \<noteq> fst (es ! j)" using e by (auto simp: image_iff)
    show ?thesis
      by (subst getCursor_loop.simps) (use ne in \<open>simp add: c e Suc deref_def Cons.IH[OF c(4) j d]\<close>)
  qed
qed

lemma getCursor_at:
  assumes "buffer_at s es k"
  shows "getCursor s = Some (Inr k)"
  using assms getCursor_loop_chain[of "heap s" "start s" es k 0]
  by (auto simp: buffer_at_def getCursor_def chain_distinct)


subsection \<open>The primitive operations on a chain\<close>

lemma buffer_at_copyString [simp]: "buffer_at (s\<lparr>copyString := x\<rparr>) es k = buffer_at s es k"
  by (simp add: buffer_at_def)

lemma moveCursorForward_at:
  assumes "buffer_at s es k"
  shows "\<exists>s'. moveCursorForward s = Inr s' \<and> copyString s' = copyString s \<and>
           buffer_at s' es (if Suc k < length es then Suc k else k)"
proof -
  from assms obtain c where c: "deref (heap s) (cursor s) = Inr (fst (es ! k), c)"
    "link c = (if Suc k < length es then Some (fst (es ! Suc k)) else None)"
    by (rule buffer_at_deref)
  with assms show ?thesis
    by (auto simp: moveCursorForward_def buffer_at_def)
qed

lemma next_ch_at:
  assumes "buffer_at s es k"
  shows "next_ch s = Inr (if Suc k < length es then Some (snd (es ! Suc k)) else None)"
proof -
  from assms obtain c where c: "deref (heap s) (cursor s) = Inr (fst (es ! k), c)"
    "link c = (if Suc k < length es then Some (fst (es ! Suc k)) else None)"
    by (rule buffer_at_deref)
  show ?thesis
  proof (cases "Suc k < length es")
    case True
    from assms have "chain (heap s) (start s) es" by (simp add: buffer_at_def)
    from chain_nth[OF this True] obtain c' where
      "lookup (heap s) (fst (es ! Suc k)) = Some c'" "ch c' = snd (es ! Suc k)" by blast
    with c True show ?thesis by (simp add: next_ch_def deref_def)
  next
    case False
    with c show ?thesis by (simp add: next_ch_def)
  qed
qed

lemma distinct_fst_nth:
  "distinct (map fst es) \<Longrightarrow> i < length es \<Longrightarrow> j < length es \<Longrightarrow>
   fst (es ! i) = fst (es ! j) \<longleftrightarrow> i = j"
  using nth_eq_iff_index_eq[of "map fst es" i j] by simp

lemma distinct_fst_nth0:
  "distinct (map fst es) \<Longrightarrow> Suc j < length es \<Longrightarrow> fst (es ! 0) \<noteq> fst (es ! Suc j)"
  by (cases es) (auto simp: image_iff)

lemma moveCursorBackward_loop_chain:
  "chain h p es \<Longrightarrow> Suc j < length es \<Longrightarrow> distinct (map fst es) \<Longrightarrow>
   moveCursorBackward_loop h p (Some (fst (es ! Suc j))) = Some (Inr (Some (fst (es ! j))))"
proof (induction es arbitrary: p j)
  case Nil
  then show ?case by simp
next
  case (Cons e es)
  obtain a x where e: "e = (a, x)" by (cases e)
  from Cons.prems(1) e obtain c where c: "p = Some a" "lookup h a = Some c" "ch c = x" "chain h (link c) es"
    by (auto split: option.splits)
  from Cons.prems(2) have ne: "es \<noteq> []" by auto
  with chain_hd[OF c(4)] have lk: "link c = Some (fst (es ! 0))" by (cases es) auto
  show ?case
  proof (cases j)
    case 0
    with e c lk show ?thesis by (subst moveCursorBackward_loop.simps) (simp add: deref_def)
  next
    case (Suc i)
    with Cons.prems have i: "Suc i < length es" and d: "distinct (map fst es)" by auto
    from d i have "fst (es ! 0) \<noteq> fst (es ! Suc i)"
      by (rule distinct_fst_nth0)
    with lk show ?thesis
      by (subst moveCursorBackward_loop.simps)
         (simp add: c e Suc deref_def Cons.IH[OF c(4) i d, unfolded lk])
  qed
qed

lemma moveCursorBackward_at:
  assumes "buffer_at s es k"
  shows "\<exists>s'. moveCursorBackward s = Some (Inr s') \<and> copyString s' = copyString s \<and>
           buffer_at s' es (k - 1)"
proof -
  from assms have ch: "chain (heap s) (start s) es" and k: "k < length es"
    and cur: "cursor s = Some (fst (es ! k))"
    by (auto simp: buffer_at_def)
  have d: "distinct (map fst es)" by (rule chain_distinct[OF ch])
  from chain_hd[OF ch] k have st: "start s = Some (fst (es ! 0))" by (cases es) auto
  show ?thesis
  proof (cases k)
    case 0
    with cur st assms show ?thesis by (simp add: moveCursorBackward_def)
  next
    case (Suc j)
    from d k Suc have "fst (es ! 0) \<noteq> fst (es ! k)"
      using distinct_fst_nth0[of es j] by simp
    with cur st have ne: "cursor s \<noteq> start s" by simp
    from moveCursorBackward_loop_chain[OF ch _ d, of j] k Suc cur
    have "moveCursorBackward_loop (heap s) (start s) (cursor s) = Some (Inr (Some (fst (es ! j))))"
      by simp
    with ne ch k Suc show ?thesis
      by (simp add: moveCursorBackward_def and_then_def buffer_at_def)
  qed
qed

lemma insertCharacter_at:
  assumes "buffer_at s es k"
  shows "\<exists>s' a. insertCharacter x s = Inr s' \<and> copyString s' = copyString s \<and>
           buffer_at s' (take (Suc k) es @ (a, x) # drop (Suc k) es) (Suc k)"
proof -
  let ?h = "heap s"
  from assms have ch: "chain ?h (start s) es" and k: "k < length es"
    by (auto simp: buffer_at_def)
  from assms obtain c where c: "deref ?h (cursor s) = Inr (fst (es ! k), c)"
    "lookup ?h (fst (es ! k)) = Some c" "ch c = snd (es ! k)"
    "chain ?h (link c) (drop (Suc k) es)"
    by (rule buffer_at_deref)
  let ?a = "fst (es ! k)" and ?cp = "length ?h"
  let ?h1 = "?h @ [Some \<lparr>ch = x, link = link c\<rparr>]"
  let ?h2 = "store ?h1 ?a (c\<lparr>link := Some ?cp\<rparr>)"
  let ?s' = "s\<lparr>heap := ?h2, cursor := Some ?cp\<rparr>"
  have d: "distinct (map fst es)" by (rule chain_distinct[OF ch])
  have a_less: "?a < ?cp" by (rule lookup_less[OF c(2)])
  have split: "es = take k es @ (?a, snd (es ! k)) # drop (Suc k) es"
    using k by (simp add: id_take_nth_drop[symmetric])
  have run: "insertCharacter x s = Inr ?s'"
    by (simp add: insertCharacter_def c new_Cell_def)
  have old: "lookup ?h2 b = lookup ?h b" if "b < ?cp" "b \<noteq> ?a" for b
    using that by (simp add: lookup_store lookup_append1)
  have la: "lookup ?h2 ?a = Some (c\<lparr>link := Some ?cp\<rparr>)"
    using a_less by (simp add: lookup_store)
  have lcp: "lookup ?h2 ?cp = Some \<lparr>ch = x, link = link c\<rparr>"
    using a_less by (simp add: lookup_store lookup_append1)
  have dd: "distinct (map fst (take k es) @ ?a # map fst (drop (Suc k) es))"
    using d by (subst (asm) split) simp
  have notin_drop: "?a \<notin> fst ` set (drop (Suc k) es)"
    using dd by simp
  have notin_take: "?a \<notin> fst ` set (take k es)"
    using dd by simp
  have less: "b < ?cp" if "b \<in> fst ` set es" for b
    using that chain_less[OF ch] by auto
  have tail: "chain ?h2 (link c) (drop (Suc k) es)"
  proof (rule chain_frame[OF c(4)])
    fix b assume b: "b \<in> fst ` set (drop (Suc k) es)"
    then have "b \<in> fst ` set es" by (auto dest: in_set_dropD)
    then have "b < ?cp" by (rule less)
    moreover from b notin_drop have "b \<noteq> ?a" by (force simp: image_iff)
    ultimately show "lookup ?h2 b = lookup ?h b" by (rule old)
  qed
  have "chain ?h2 (start s) (take k es @ (?a, snd (es ! k)) # (?cp, x) # drop (Suc k) es)"
  proof (rule chain_splice[where h = ?h and post = "drop (Suc k) es"])
    show "chain ?h (start s) (take k es @ (?a, snd (es ! k)) # drop (Suc k) es)"
      using ch split by simp
    show "lookup ?h2 ?a = Some (c\<lparr>link := Some ?cp\<rparr>)" by (rule la)
    show "ch (c\<lparr>link := Some ?cp\<rparr>) = snd (es ! k)" using c(3) by simp
    show "chain ?h2 (link (c\<lparr>link := Some ?cp\<rparr>)) ((?cp, x) # drop (Suc k) es)"
      using lcp tail by simp
  next
    fix b assume b: "b \<in> fst ` set (take k es)"
    then have "b \<in> fst ` set es" by (auto dest: in_set_takeD)
    then have "b < ?cp" by (rule less)
    moreover from b notin_take have "b \<noteq> ?a" by (force simp: image_iff)
    ultimately show "lookup ?h2 b = lookup ?h b" by (rule old)
  qed
  moreover have "take (Suc k) es = take k es @ [(?a, snd (es ! k))]"
    using k by (simp add: take_Suc_conv_app_nth)
  ultimately have "chain ?h2 (start s) (take (Suc k) es @ (?cp, x) # drop (Suc k) es)"
    by simp
  then have "buffer_at ?s' (take (Suc k) es @ (?cp, x) # drop (Suc k) es) (Suc k)"
    using k by (simp add: buffer_at_def nth_append)
  with run show ?thesis by auto
qed

lemma deleteCharacter_at:
  assumes "buffer_at s es k"
  shows "\<exists>s'. deleteCharacter s = Inr s' \<and> copyString s' = copyString s \<and>
           buffer_at s' (take (Suc k) es @ drop (Suc (Suc k)) es) k"
proof -
  let ?h = "heap s"
  from assms have ch: "chain ?h (start s) es" and k: "k < length es"
    and cur: "cursor s = Some (fst (es ! k))"
    by (auto simp: buffer_at_def)
  from assms obtain c where c: "deref ?h (cursor s) = Inr (fst (es ! k), c)"
    "lookup ?h (fst (es ! k)) = Some c" "ch c = snd (es ! k)"
    "chain ?h (link c) (drop (Suc k) es)"
    "link c = (if Suc k < length es then Some (fst (es ! Suc k)) else None)"
    by (rule buffer_at_deref)
  show ?thesis
  proof (cases "Suc k < length es")
    case False
    with c assms show ?thesis by (simp add: deleteCharacter_def)
  next
    case True
    let ?a = "fst (es ! k)" and ?old = "fst (es ! Suc k)"
    from chain_nth[OF ch True] obtain c' where c': "lookup ?h ?old = Some c'"
      "chain ?h (link c') (drop (Suc (Suc k)) es)" by blast
    let ?h2 = "delete_Cell (store ?h ?a (c\<lparr>link := link c'\<rparr>)) ?old"
    let ?s' = "s\<lparr>heap := ?h2\<rparr>"
    have d: "distinct (map fst es)" by (rule chain_distinct[OF ch])
    have "deref ?h (link c) = Inr (?old, c')"
      using True c(5) c'(1) by (simp add: deref_def)
    then have run: "deleteCharacter s = Inr ?s'"
      using True c(5) by (simp add: deleteCharacter_def c(1))
    have ne: "?a \<noteq> ?old"
      using d True distinct_fst_nth[of es k "Suc k"] by simp
    have a_less: "?a < length ?h" by (rule lookup_less[OF c(2)])
    have old: "lookup ?h2 b = lookup ?h b" if "b \<noteq> ?old" "b \<noteq> ?a" for b
      using that by (simp add: lookup_store lookup_delete_Cell)
    have la: "lookup ?h2 ?a = Some (c\<lparr>link := link c'\<rparr>)"
      using a_less ne by (simp add: lookup_store lookup_delete_Cell)
    have split: "es = take k es @ (?a, snd (es ! k)) # (?old, snd (es ! Suc k)) # drop (Suc (Suc k)) es"
      using True id_take_nth_drop[of k es] Cons_nth_drop_Suc[of "Suc k" es] by simp
    have dd: "distinct (map fst (take k es) @ ?a # ?old # map fst (drop (Suc (Suc k)) es))"
      using d by (subst (asm) split) simp
    have tail: "chain ?h2 (link c') (drop (Suc (Suc k)) es)"
    proof (rule chain_frame[OF c'(2)])
      fix b assume "b \<in> fst ` set (drop (Suc (Suc k)) es)"
      with dd have "b \<noteq> ?old" "b \<noteq> ?a" by (force simp: image_iff)+
      then show "lookup ?h2 b = lookup ?h b" by (rule old)
    qed
    have "chain ?h2 (start s) (take k es @ (?a, snd (es ! k)) # drop (Suc (Suc k)) es)"
    proof (rule chain_splice[where h = ?h and post = "drop (Suc k) es"])
      show "chain ?h (start s) (take k es @ (?a, snd (es ! k)) # drop (Suc k) es)"
        using ch k by (simp add: id_take_nth_drop[symmetric])
      show "lookup ?h2 ?a = Some (c\<lparr>link := link c'\<rparr>)" by (rule la)
      show "ch (c\<lparr>link := link c'\<rparr>) = snd (es ! k)" using c(3) by simp
      show "chain ?h2 (link (c\<lparr>link := link c'\<rparr>)) (drop (Suc (Suc k)) es)"
        using tail by simp
    next
      fix b assume "b \<in> fst ` set (take k es)"
      with dd have "b \<noteq> ?old" "b \<noteq> ?a" by (force simp: image_iff)+
      then show "lookup ?h2 b = lookup ?h b" by (rule old)
    qed
    moreover have "take (Suc k) es = take k es @ [(?a, snd (es ! k))]"
      using k by (simp add: take_Suc_conv_app_nth)
    ultimately have "chain ?h2 (start s) (take (Suc k) es @ drop (Suc (Suc k)) es)"
      by simp
    then have "buffer_at ?s' (take (Suc k) es @ drop (Suc (Suc k)) es) k"
      using k cur by (simp add: buffer_at_def nth_append)
    with run show ?thesis by auto
  qed
qed


section \<open>The operations on the text and the cursor\<close>

lemma modelsE:
  assumes "models s txt k"
  obtains e es where "buffer_at s (e # es) k" and "map snd es = txt"
proof -
  from assms obtain es0 where es0: "buffer_at s es0 k" "map snd (tl es0) = txt"
    by (auto simp: models_def)
  then have "es0 \<noteq> []" by (auto simp: buffer_at_def)
  then obtain e es where "es0 = e # es" by (cases es0) auto
  with es0 show thesis by (intro that[of e es]) auto
qed

lemma modelsI: "buffer_at s (e # es) k \<Longrightarrow> map snd es = txt \<Longrightarrow> models s txt k"
  by (auto simp: models_def)

lemma models_le: "models s txt k \<Longrightarrow> k \<le> length txt"
  by (erule modelsE) (auto simp: buffer_at_def)

lemma models_getText: "models s txt k \<Longrightarrow> getText s = Some (Inr txt)"
  by (erule modelsE) (auto dest: getText_at)

lemma models_getCursor: "models s txt k \<Longrightarrow> getCursor s = Some (Inr k)"
  by (erule modelsE) (auto dest: getCursor_at)

lemma models_getText_from:
  "models s txt k \<Longrightarrow> getText_from s (cursor s) = Some (Inr (drop k txt))"
  by (erule modelsE) (auto dest: getText_from_at simp: drop_map)

lemma models_copyString [simp]: "models (s\<lparr>copyString := x\<rparr>) txt k = models s txt k"
  by (simp add: models_def)

lemma models_next_ch:
  "models s txt k \<Longrightarrow> next_ch s = Inr (if k < length txt then Some (txt ! k) else None)"
  by (erule modelsE) (auto dest: next_ch_at)

lemma models_moveCursorForward:
  assumes "models s txt k"
  shows "\<exists>s'. moveCursorForward s = Inr s' \<and> copyString s' = copyString s \<and>
           models s' txt (if k < length txt then Suc k else k)"
proof -
  from assms obtain e es where es: "buffer_at s (e # es) k" "map snd es = txt"
    by (rule modelsE)
  from moveCursorForward_at[OF es(1)] es(2) show ?thesis
    by (auto intro: modelsI)
qed

lemma models_moveCursorBackward:
  assumes "models s txt k"
  shows "\<exists>s'. moveCursorBackward s = Some (Inr s') \<and> copyString s' = copyString s \<and>
           models s' txt (k - 1)"
proof -
  from assms obtain e es where es: "buffer_at s (e # es) k" "map snd es = txt"
    by (rule modelsE)
  from moveCursorBackward_at[OF es(1)] es(2) show ?thesis
    by (auto intro: modelsI)
qed

lemma models_insertCharacter:
  assumes "models s txt k"
  shows "\<exists>s'. insertCharacter x s = Inr s' \<and> copyString s' = copyString s \<and>
           models s' (take k txt @ x # drop k txt) (Suc k)"
proof -
  from assms obtain e es where es: "buffer_at s (e # es) k" "map snd es = txt"
    by (rule modelsE)
  from insertCharacter_at[OF es(1), of x] obtain s' a where
    s': "insertCharacter x s = Inr s'" "copyString s' = copyString s"
    "buffer_at s' (e # (take k es @ (a, x) # drop k es)) (Suc k)"
    by auto
  have "models s' (take k txt @ x # drop k txt) (Suc k)"
    by (rule modelsI[OF s'(3)]) (simp add: es(2)[symmetric] take_map drop_map)
  with s' show ?thesis by blast
qed

lemma models_deleteCharacter:
  assumes "models s txt k"
  shows "\<exists>s'. deleteCharacter s = Inr s' \<and> copyString s' = copyString s \<and>
           models s' (take k txt @ drop (Suc k) txt) k"
proof -
  from assms obtain e es where es: "buffer_at s (e # es) k" "map snd es = txt"
    by (rule modelsE)
  from deleteCharacter_at[OF es(1)] obtain s' where
    s': "deleteCharacter s = Inr s'" "copyString s' = copyString s"
    "buffer_at s' (e # (take k es @ drop (Suc k) es)) k"
    by auto
  have "models s' (take k txt @ drop (Suc k) txt) k"
    by (rule modelsI[OF s'(3)]) (simp add: es(2)[symmetric] take_map drop_map)
  with s' show ?thesis by blast
qed

lemma models_moveCursorToStart:
  assumes "models s txt k"
  shows "models (moveCursorToStart s) txt 0"
proof -
  from assms obtain e es where es: "buffer_at s (e # es) k" "map snd es = txt"
    by (rule modelsE)
  from es(1) have "chain (heap s) (start s) (e # es)" by (simp add: buffer_at_def)
  from chain_hd[OF this] this have "buffer_at (moveCursorToStart s) (e # es) 0"
    by (simp add: buffer_at_def moveCursorToStart_def)
  then show ?thesis using es(2) by (rule modelsI)
qed

lemma models_moveCursorToEnd:
  "models s txt k \<Longrightarrow>
   \<exists>s'. moveCursorToEnd s = Some (Inr s') \<and> copyString s' = copyString s \<and>
      models s' txt (length txt)"
proof (induction "length txt - k" arbitrary: s k)
  case 0
  from 0(2) have "k \<le> length txt" by (rule models_le)
  with 0(1) have k: "k = length txt" by simp
  from 0(2) obtain e es where es: "buffer_at s (e # es) k" "map snd es = txt"
    by (rule modelsE)
  from es(1) obtain c where "deref (heap s) (cursor s) = Inr (fst ((e # es) ! k), c)"
    "link c = (if Suc k < length (e # es) then Some (fst ((e # es) ! Suc k)) else None)"
    by (rule buffer_at_deref)
  with k es(2) have "moveCursorToEnd s = Some (Inr s)"
    by (subst moveCursorToEnd.simps) auto
  with 0(2) k show ?case by simp
next
  case (Suc n)
  then have k: "k < length txt" by simp
  from Suc(3) obtain e es where es: "buffer_at s (e # es) k" "map snd es = txt"
    by (rule modelsE)
  from es(1) obtain c where c: "deref (heap s) (cursor s) = Inr (fst ((e # es) ! k), c)"
    "link c = (if Suc k < length (e # es) then Some (fst ((e # es) ! Suc k)) else None)"
    by (rule buffer_at_deref)
  let ?s1 = "s\<lparr>cursor := link c\<rparr>"
  from k es c(2) have "buffer_at ?s1 (e # es) (Suc k)"
    by (auto simp: buffer_at_def)
  then have "models ?s1 txt (Suc k)" using es(2) by (rule modelsI)
  moreover from Suc(2) have "n = length txt - Suc k" by simp
  ultimately obtain s' where "moveCursorToEnd ?s1 = Some (Inr s')"
    "copyString s' = copyString ?s1" "models s' txt (length txt)"
    using Suc(1) by blast
  moreover from k es(2) c have "moveCursorToEnd s = moveCursorToEnd ?s1"
    by (subst moveCursorToEnd.simps) auto
  ultimately show ?case by simp
qed


subsection \<open>The loops of the word operations and of insertString\<close>

lemma drop_nth_Cons: "k < length xs \<Longrightarrow> drop k xs = xs ! k # drop (Suc k) xs"
  by (simp add: Cons_nth_drop_Suc)

lemma models_moveCursorForwardWord_loop1:
  "models s txt k \<Longrightarrow>
   \<exists>s'. moveCursorForwardWord_loop1 s = Some (Inr s') \<and> copyString s' = copyString s \<and>
      models s' txt (k + length (takeWhile blank (drop k txt)))"
proof (induction "length txt - k" arbitrary: s k)
  case 0
  from 0(2) have "k \<le> length txt" by (rule models_le)
  with 0(1) have k: "k = length txt" by simp
  from models_next_ch[OF 0(2)] k have "moveCursorForwardWord_loop1 s = Some (Inr s)"
    by (subst moveCursorForwardWord_loop1.simps) simp
  with 0(2) k show ?case by simp
next
  case (Suc n)
  then have k: "k < length txt" by simp
  note nx = models_next_ch[OF Suc(3)]
  show ?case
  proof (cases "blank (txt ! k)")
    case False
    with nx k have "moveCursorForwardWord_loop1 s = Some (Inr s)"
      by (subst moveCursorForwardWord_loop1.simps) (simp add: blank_def)
    with Suc(3) k False show ?thesis by (simp add: drop_nth_Cons)
  next
    case True
    from models_moveCursorForward[OF Suc(3)] k obtain s1 where
      s1: "moveCursorForward s = Inr s1" "copyString s1 = copyString s" "models s1 txt (Suc k)"
      by auto
    from Suc(2) have "n = length txt - Suc k" by simp
    from Suc(1)[OF this s1(3)] obtain s' where
      s': "moveCursorForwardWord_loop1 s1 = Some (Inr s')" "copyString s' = copyString s1"
      "models s' txt (Suc k + length (takeWhile blank (drop (Suc k) txt)))"
      by blast
    from nx k True s1(1) have "moveCursorForwardWord_loop1 s = moveCursorForwardWord_loop1 s1"
      by (subst moveCursorForwardWord_loop1.simps) (simp add: blank_def)
    with s' s1(2) k True show ?thesis by (simp add: drop_nth_Cons)
  qed
qed

lemma models_moveCursorForwardWord_loop2:
  "models s txt k \<Longrightarrow>
   \<exists>s'. moveCursorForwardWord_loop2 s = Some (Inr s') \<and> copyString s' = copyString s \<and>
      models s' txt (k + length (takeWhile (\<lambda>x. \<not> blank x) (drop k txt)))"
proof (induction "length txt - k" arbitrary: s k)
  case 0
  from 0(2) have "k \<le> length txt" by (rule models_le)
  with 0(1) have k: "k = length txt" by simp
  from models_next_ch[OF 0(2)] k have "moveCursorForwardWord_loop2 s = Some (Inr s)"
    by (subst moveCursorForwardWord_loop2.simps) simp
  with 0(2) k show ?case by simp
next
  case (Suc n)
  then have k: "k < length txt" by simp
  note nx = models_next_ch[OF Suc(3)]
  show ?case
  proof (cases "blank (txt ! k)")
    case True
    with nx k have "moveCursorForwardWord_loop2 s = Some (Inr s)"
      by (subst moveCursorForwardWord_loop2.simps) (auto simp: blank_def)
    with Suc(3) k True show ?thesis by (simp add: drop_nth_Cons)
  next
    case False
    from models_moveCursorForward[OF Suc(3)] k obtain s1 where
      s1: "moveCursorForward s = Inr s1" "copyString s1 = copyString s" "models s1 txt (Suc k)"
      by auto
    from Suc(2) have "n = length txt - Suc k" by simp
    from Suc(1)[OF this s1(3)] obtain s' where
      s': "moveCursorForwardWord_loop2 s1 = Some (Inr s')" "copyString s' = copyString s1"
      "models s' txt (Suc k + length (takeWhile (\<lambda>x. \<not> blank x) (drop (Suc k) txt)))"
      by blast
    from nx k False s1(1) have "moveCursorForwardWord_loop2 s = moveCursorForwardWord_loop2 s1"
      by (subst moveCursorForwardWord_loop2.simps) (simp add: blank_def)
    with s' s1(2) k False show ?thesis by (simp add: drop_nth_Cons)
  qed
qed

lemma models_moveCursorForwardWord:
  assumes "models s txt k"
  shows "\<exists>s'. moveCursorForwardWord s = Some (Inr s') \<and> copyString s' = copyString s \<and>
      models s' txt (word_end txt k)"
proof -
  from models_moveCursorForwardWord_loop1[OF assms] obtain s1 where
    s1: "moveCursorForwardWord_loop1 s = Some (Inr s1)" "copyString s1 = copyString s"
    "models s1 txt (k + length (takeWhile blank (drop k txt)))" by blast
  from models_moveCursorForwardWord_loop2[OF s1(3)] s1(1,2) show ?thesis
    by (auto simp: moveCursorForwardWord_def and_then_def word_end_def Let_def)
qed

lemma models_deleteWord_loop1:
  "models s tx k \<Longrightarrow>
   \<exists>s'. deleteWord_loop1 s = Some (Inr s') \<and> copyString s' = copyString s \<and>
      models s' (take k tx @ dropWhile blank (drop k tx)) k"
proof (induction "length tx - k" arbitrary: s tx)
  case 0
  from 0(2) have "k \<le> length tx" by (rule models_le)
  with 0(1) have k: "k = length tx" by simp
  from models_next_ch[OF 0(2)] k have "deleteWord_loop1 s = Some (Inr s)"
    by (subst deleteWord_loop1.simps) simp
  with 0(2) k show ?case by simp
next
  case (Suc n)
  then have k: "k < length tx" by simp
  note nx = models_next_ch[OF Suc(3)]
  show ?case
  proof (cases "blank (tx ! k)")
    case False
    with nx k have "deleteWord_loop1 s = Some (Inr s)"
      by (subst deleteWord_loop1.simps) (simp add: blank_def)
    with Suc(3) k False show ?thesis by (simp add: drop_nth_Cons id_take_nth_drop[symmetric])
  next
    case True
    let ?txt1 = "take k tx @ drop (Suc k) tx"
    from models_deleteCharacter[OF Suc(3)] obtain s1 where
      s1: "deleteCharacter s = Inr s1" "copyString s1 = copyString s" "models s1 ?txt1 k"
      by auto
    from Suc(2) k have "n = length ?txt1 - k" by simp
    from Suc(1)[OF this s1(3)] obtain s' where
      s': "deleteWord_loop1 s1 = Some (Inr s')" "copyString s' = copyString s1"
      "models s' (take k ?txt1 @ dropWhile blank (drop k ?txt1)) k"
      by blast
    from nx k True s1(1) have "deleteWord_loop1 s = deleteWord_loop1 s1"
      by (subst deleteWord_loop1.simps) (simp add: blank_def)
    with s' s1(2) k True show ?thesis by (simp add: drop_nth_Cons)
  qed
qed

lemma models_deleteWord_loop2:
  "models s tx k \<Longrightarrow>
   \<exists>s'. deleteWord_loop2 s = Some (Inr s') \<and> copyString s' = copyString s \<and>
      models s' (take k tx @ dropWhile (\<lambda>x. \<not> blank x) (drop k tx)) k"
proof (induction "length tx - k" arbitrary: s tx)
  case 0
  from 0(2) have "k \<le> length tx" by (rule models_le)
  with 0(1) have k: "k = length tx" by simp
  from models_next_ch[OF 0(2)] k have "deleteWord_loop2 s = Some (Inr s)"
    by (subst deleteWord_loop2.simps) simp
  with 0(2) k show ?case by simp
next
  case (Suc n)
  then have k: "k < length tx" by simp
  note nx = models_next_ch[OF Suc(3)]
  show ?case
  proof (cases "blank (tx ! k)")
    case True
    with nx k have "deleteWord_loop2 s = Some (Inr s)"
      by (subst deleteWord_loop2.simps) (auto simp: blank_def)
    with Suc(3) k True show ?thesis by (simp add: drop_nth_Cons id_take_nth_drop[symmetric])
  next
    case False
    let ?txt1 = "take k tx @ drop (Suc k) tx"
    from models_deleteCharacter[OF Suc(3)] obtain s1 where
      s1: "deleteCharacter s = Inr s1" "copyString s1 = copyString s" "models s1 ?txt1 k"
      by auto
    from Suc(2) k have "n = length ?txt1 - k" by simp
    from Suc(1)[OF this s1(3)] obtain s' where
      s': "deleteWord_loop2 s1 = Some (Inr s')" "copyString s' = copyString s1"
      "models s' (take k ?txt1 @ dropWhile (\<lambda>x. \<not> blank x) (drop k ?txt1)) k"
      by blast
    from nx k False s1(1) have "deleteWord_loop2 s = deleteWord_loop2 s1"
      by (subst deleteWord_loop2.simps) (simp add: blank_def)
    with s' s1(2) k False show ?thesis by (simp add: drop_nth_Cons)
  qed
qed

lemma models_deleteWord:
  assumes "models s txt k"
  shows "\<exists>s'. deleteWord s = Some (Inr s') \<and> copyString s' = copyString s \<and>
      models s' (take k txt @ dropWhile (\<lambda>x. \<not> blank x) (dropWhile blank (drop k txt))) k"
proof -
  from assms have k: "k \<le> length txt" by (rule models_le)
  from models_deleteWord_loop1[OF assms] obtain s1 where
    s1: "deleteWord_loop1 s = Some (Inr s1)" "copyString s1 = copyString s"
    "models s1 (take k txt @ dropWhile blank (drop k txt)) k" by blast
  from models_deleteWord_loop2[OF s1(3)] s1(1,2) k show ?thesis
    by (auto simp: deleteWord_def and_then_def)
qed

lemma models_insertString_loop:
  "models s tx k \<Longrightarrow>
   \<exists>s'. insertString_loop str i s = Inr s' \<and> copyString s' = copyString s \<and>
      models s' (take k tx @ drop i str @ drop k tx) (k + (length str - i))"
proof (induction "length str - i" arbitrary: s tx k i)
  case 0
  then show ?case by (subst insertString_loop.simps) simp
next
  case (Suc n)
  then have i: "i < length str" by simp
  from Suc(3) have k: "k \<le> length tx" by (rule models_le)
  let ?txt1 = "take k tx @ str ! i # drop k tx"
  from models_insertCharacter[OF Suc(3), of "str ! i"] obtain s1 where
    s1: "insertCharacter (str ! i) s = Inr s1" "copyString s1 = copyString s"
    "models s1 ?txt1 (Suc k)" by blast
  from Suc(2) have "n = length str - Suc i" by simp
  from Suc(1)[OF this s1(3)] obtain s' where
    s': "insertString_loop str (Suc i) s1 = Inr s'" "copyString s' = copyString s1"
    "models s' (take (Suc k) ?txt1 @ drop (Suc i) str @ drop (Suc k) ?txt1)
       (Suc k + (length str - Suc i))" by blast
  from i s1(1) have run: "insertString_loop str i s = insertString_loop str (Suc i) s1"
    by (subst insertString_loop.simps) simp
  have tx: "take (Suc k) ?txt1 @ drop (Suc i) str @ drop (Suc k) ?txt1
      = take k tx @ drop i str @ drop k tx"
    using k i by (simp add: drop_nth_Cons[of i str])
  have pos: "Suc k + (length str - Suc i) = k + (length str - i)" using i by simp
  from s'(3) have "models s' (take k tx @ drop i str @ drop k tx) (k + (length str - i))"
    unfolding tx pos .
  with run s'(1,2) s1(2) show ?case by simp
qed

lemma models_insertString:
  assumes "models s txt k"
  shows "\<exists>s'. insertString str s = Inr s' \<and> copyString s' = copyString s \<and>
      models s' (take k txt @ str @ drop k txt) (k + length str)"
  using models_insertString_loop[OF assms, of str 0] by (simp add: insertString_def)

lemma models_copy:
  assumes "models s txt k"
  shows "copy nChars s = Some (Inr (s\<lparr>copyString := take (size_t_of_int nChars) (drop k txt)\<rparr>))"
  using models_getText_from[OF assms] by (simp add: copy_def and_then_def substr0_def)


subsection \<open>An int argument as a size_t\<close>

lemma size_t_of_int_eq: "size_t_of_int n = nat (sint n mod 2 ^ 64)"
proof -
  have "uint (scast n :: 64 word) = sint n mod 2 ^ 64"
    by (simp only: scast_eq uint_word_of_int) simp
  then show ?thesis
    unfolding size_t_of_int_def by (simp only: unat_eq_nat_uint)
qed

lemma sint_bounds32: "- (2 ^ 31) \<le> sint (n :: 32 word) \<and> sint n < 2 ^ 31"
  using sint_ge[of n] sint_lt[of n] by simp

lemma size_t_of_int_nonneg: "0 \<le> sint n \<Longrightarrow> size_t_of_int n = nat (sint n)"
  using sint_bounds32[of n] by (simp add: size_t_of_int_eq)

lemma size_t_of_int_neg:
  assumes neg: "sint n < 0"
  shows "2 ^ 64 - 2 ^ 31 \<le> size_t_of_int n"
proof -
  have b: "- (2 ^ 31) \<le> sint n" using sint_bounds32[of n] by simp
  have "(sint n + 2 ^ 64) mod 2 ^ 64 = sint n + 2 ^ 64"
    using neg b by (intro mod_pos_pos_trivial) auto
  then have "sint n mod 2 ^ 64 = sint n + 2 ^ 64" by simp
  then have "size_t_of_int n = nat (sint n + 2 ^ 64)" by (simp add: size_t_of_int_eq)
  with b show ?thesis by simp
qed

lemma sint_dec: 
  assumes "0 < sint (n :: 32 word)" shows "sint (n - 1) = sint n - 1"
proof -
  have "signed_take_bit 31 (sint n - 1) = sint n - 1"
    using assms sint_bounds32[of n] by (intro signed_take_bit_int_eq_self) auto
  then show ?thesis by (simp add: sint_word_diff)
qed


subsection \<open>The queries determine the chain\<close>

lemma getText_loop_Some:
  assumes run: "getText_loop h p str = Some y"
  shows "\<forall>r. y = Inr r \<longrightarrow> (\<exists>es. chain h p es \<and> r = str @ map snd es)"
proof (rule getText_loop.raw_induct[where
      P = "\<lambda>h p str y. \<forall>r. y = Inr r \<longrightarrow> (\<exists>es. chain h p es \<and> r = str @ map snd es)",
      OF _ run], goal_cases)
  case (1 loop h cp str y)
  show ?case
  proof (cases cp)
    case None
    with 1(2) show ?thesis by auto
  next
    case (Some a)
    show ?thesis
    proof (cases "lookup h a")
      case None
      with Some 1(2) show ?thesis by (auto simp: deref_def)
    next
      case c: (Some c)
      with Some 1(2) have "loop h (link c) (str @ [ch c]) = Some y"
        by (simp add: deref_def)
      from 1(1)[OF this] have ih:
        "\<forall>r. y = Inr r \<longrightarrow> (\<exists>es. chain h (link c) es \<and> r = (str @ [ch c]) @ map snd es)" .
      show ?thesis
      proof (intro allI impI)
        fix r assume "y = Inr r"
        with ih obtain es where "chain h (link c) es"
          "r = (str @ [ch c]) @ map snd es" by blast
        with c Some have "chain h cp ((a, ch c) # es) \<and> r = str @ map snd ((a, ch c) # es)"
          by simp
        then show "\<exists>es. chain h cp es \<and> r = str @ map snd es" by blast
      qed
    qed
  qed
qed

lemma getCursor_loop_conv:
  "chain h p es \<Longrightarrow> getCursor_loop h p cur n = Some (Inr r) \<Longrightarrow>
   (cur = None \<and> r = n + length es) \<or>
   (n \<le> r \<and> r - n < length es \<and> cur = Some (fst (es ! (r - n))))"
proof (induction es arbitrary: p n)
  case Nil
  then have p: "p = None" by simp
  show ?case
  proof (cases "cur = None")
    case True
    with Nil(2) p show ?thesis by (subst (asm) getCursor_loop.simps) simp
  next
    case False
    with Nil(2) p show ?thesis by (subst (asm) getCursor_loop.simps) (auto simp: deref_def)
  qed
next
  case (Cons e es)
  obtain a x where e: "e = (a, x)" by (cases e)
  from Cons.prems(1) e obtain c where c: "p = Some a" "lookup h a = Some c" "ch c = x" "chain h (link c) es"
    by (auto split: option.splits)
  show ?case
  proof (cases "cur = Some a")
    case True
    with Cons.prems(2) c have "r = n" by (subst (asm) getCursor_loop.simps) simp
    with True e show ?thesis by simp
  next
    case False
    with Cons.prems(2) c have "getCursor_loop h (link c) cur (n + 1) = Some (Inr r)"
      by (subst (asm) getCursor_loop.simps) (auto simp: deref_def)
    from Cons.IH[OF c(4) this] show ?thesis
    proof
      assume "cur = None \<and> r = n + 1 + length es"
      then show ?thesis by simp
    next
      assume *: "n + 1 \<le> r \<and> r - (n + 1) < length es \<and> cur = Some (fst (es ! (r - (n + 1))))"
      then have "r - n = Suc (r - (n + 1))" by arith
      with * show ?thesis by simp
    qed
  qed
qed

lemma models_buffer_state: "models s txt k \<Longrightarrow> buffer_state s txt k"
  by (simp add: buffer_state_def models_getText models_getCursor models_le)

lemma buffer_state_models:
  assumes "buffer_state s txt k"
  shows "models s txt k"
proof -
  from assms have gt: "getText s = Some (Inr txt)" and gc: "getCursor s = Some (Inr k)"
    and k: "k \<le> length txt" by (auto simp: buffer_state_def)
  from gt obtain a c where d: "deref (heap s) (start s) = Inr (a, c)"
    and l: "getText_loop (heap s) (link c) [] = Some (Inr txt)"
    by (auto simp: getText_def split: sum.splits)
  from getText_loop_Some[OF l] obtain es where es: "chain (heap s) (link c) es" "txt = map snd es"
    by auto
  from d have st: "start s = Some a" "lookup (heap s) a = Some c"
    by (auto simp: deref_def split: option.splits)
  with es have ch: "chain (heap s) (start s) ((a, ch c) # es)" by simp
  from gc have "getCursor_loop (heap s) (start s) (cursor s) 0 = Some (Inr k)"
    by (simp add: getCursor_def)
  from getCursor_loop_conv[OF ch this] k es(2)
  have "cursor s = Some (fst (((a, ch c) # es) ! k))" by auto
  with ch k es(2) have "buffer_at s ((a, ch c) # es) k" by (simp add: buffer_at_def)
  then show ?thesis using es(2)[symmetric] by (rule modelsI)
qed

lemma buffer_state_iff: "buffer_state s txt k \<longleftrightarrow> models s txt k"
  using models_buffer_state buffer_state_models by blast

lemma buffer_state_EditorBuffer: "buffer_state (EditorBuffer junk) [] 0"
proof -
  have "buffer_at (EditorBuffer junk) [(0, junk)] 0"
    by (simp add: buffer_at_def EditorBuffer_def new_Cell_def lookup_def)
  then have "models (EditorBuffer junk) [] 0" by (rule modelsI) simp
  then show ?thesis by (rule models_buffer_state)
qed


subsection \<open>copyWords and moveCursorBackwardWord\<close>

lemma deref_Inr: "deref h p = Inr (a, c) \<Longrightarrow> p = Some a \<and> lookup h a = Some c"
  by (auto simp: deref_def split: option.splits)

lemma copyWords_for1_eq:
  "copyWords_for1 cs i = i + length (takeWhile blank (drop i cs))"
proof (induction cs i rule: copyWords_for1.induct)
  case (1 cs i)
  show ?case
  proof (cases "i < length cs")
    case False
    then show ?thesis by (subst copyWords_for1.simps) simp
  next
    case True
    show ?thesis
    proof (cases "blank (cs ! i)")
      case False
      with True show ?thesis
        by (subst copyWords_for1.simps) (simp add: blank_def[symmetric] drop_nth_Cons)
    next
      case b: True
      with True 1 have "copyWords_for1 cs (i + 1) = i + 1 + length (takeWhile blank (drop (i + 1) cs))"
        by (simp add: blank_def[symmetric])
      with True b show ?thesis
        by (subst copyWords_for1.simps) (simp add: blank_def[symmetric] drop_nth_Cons)
    qed
  qed
qed

lemma copyWords_for2_eq:
  "copyWords_for2 cs i n =
     (i + length (takeWhile (\<lambda>x. \<not> blank x) (drop i cs)),
      if i + length (takeWhile (\<lambda>x. \<not> blank x) (drop i cs)) < length cs then n - 1 else n)"
proof (induction cs i n rule: copyWords_for2.induct)
  case (1 cs i n)
  show ?case
  proof (cases "i < length cs")
    case False
    then show ?thesis by (subst copyWords_for2.simps) simp
  next
    case True
    show ?thesis
    proof (cases "blank (cs ! i)")
      case b: True
      with True show ?thesis
        by (subst copyWords_for2.simps) (simp add: blank_def[symmetric] drop_nth_Cons)
    next
      case False
      with True 1 have "copyWords_for2 cs (i + 1) n =
        (i + 1 + length (takeWhile (\<lambda>x. \<not> blank x) (drop (i + 1) cs)),
         if i + 1 + length (takeWhile (\<lambda>x. \<not> blank x) (drop (i + 1) cs)) < length cs
         then n - 1 else n)"
        by (simp add: blank_def[symmetric])
      with True False show ?thesis
        by (subst copyWords_for2.simps) (simp add: blank_def[symmetric] drop_nth_Cons)
    qed
  qed
qed

lemma word_end_bounds:
  assumes "i \<le> length cs"
  shows "i \<le> word_end cs i" and "word_end cs i \<le> length cs"
proof -
  let ?k1 = "i + length (takeWhile blank (drop i cs))"
  have "length (takeWhile blank (drop i cs)) \<le> length (drop i cs)"
    by (rule length_takeWhile_le)
  with assms have k1: "?k1 \<le> length cs" by simp
  have "length (takeWhile (\<lambda>x. \<not> blank x) (drop ?k1 cs)) \<le> length (drop ?k1 cs)"
    by (rule length_takeWhile_le)
  with k1 show "word_end cs i \<le> length cs" by (simp add: word_end_def Let_def)
  show "i \<le> word_end cs i" by (simp add: word_end_def Let_def)
qed

lemma copyWords_while_step:
  assumes "0 < sint n" and "i \<le> length cs"
  shows "copyWords_while cs n i =
     copyWords_while cs (if word_end cs i = length cs then 0 else n - 1) (word_end cs i)"
proof -
  from word_end_bounds(2)[OF assms(2)] have "word_end cs i \<le> length cs" .
  then have "word_end cs i \<noteq> length cs \<Longrightarrow> word_end cs i < length cs" by simp
  with assms(1) show ?thesis
    by (subst copyWords_while.simps)
       (auto simp: copyWords_for1_eq copyWords_for2_eq word_end_def Let_def)
qed

lemma copyWords_while_stop: "\<not> 0 < sint n \<Longrightarrow> copyWords_while cs n i = Some i"
  by (subst copyWords_while.simps) simp

lemma copyWords_while_total:
  "i \<le> length cs \<Longrightarrow>
   \<exists>r. copyWords_while cs n i = Some r \<and> r \<le> length cs \<and>
     (if 0 < sint n then word_end cs i \<le> r else r = i) \<and>
     (n = 1 \<longrightarrow> r = word_end cs i)"
proof (induction "nat (sint n)" arbitrary: n i rule: less_induct)
  case less
  show ?case
  proof (cases "0 < sint n")
    case False
    then have "n \<noteq> 1" by auto
    with False less.prems show ?thesis by (simp add: copyWords_while_stop)
  next
    case True
    let ?i = "word_end cs i"
    let ?n = "if ?i = length cs then 0 else n - 1"
    from word_end_bounds[OF less.prems] have b: "i \<le> ?i" "?i \<le> length cs" .
    from True have "sint ?n < sint n" by (simp add: sint_dec)
    with True have "nat (sint ?n) < nat (sint n)" by simp
    from less.hyps[OF this b(2)] obtain r where r: "copyWords_while cs ?n ?i = Some r"
      "r \<le> length cs" "if 0 < sint ?n then word_end cs ?i \<le> r else r = ?i"
      by blast
    from word_end_bounds(1)[OF b(2)] r(3) have "?i \<le> r" by (auto split: if_splits)
    moreover have "r = ?i" if "n = 1" using that r(3) by (simp split: if_splits)
    ultimately show ?thesis
      using True r(1,2) copyWords_while_step[OF True less.prems] by simp
  qed
qed

lemma models_copyWords:
  assumes "models s txt k"
  shows "\<exists>i. copyWords n s = Some (Inr (s\<lparr>copyString := take i (drop k txt)\<rparr>)) \<and>
     i \<le> length (drop k txt) \<and>
     (if 0 < sint n then word_end (drop k txt) 0 \<le> i else i = 0) \<and>
     (n = 1 \<longrightarrow> i = word_end (drop k txt) 0)"
proof -
  from copyWords_while_total[of 0 "drop k txt" n] obtain r where
    "copyWords_while (drop k txt) n 0 = Some r" "r \<le> length (drop k txt)"
    "if 0 < sint n then word_end (drop k txt) 0 \<le> r else r = 0"
    "n = 1 \<longrightarrow> r = word_end (drop k txt) 0" by auto
  with models_getText_from[OF assms] show ?thesis
    by (intro exI[of _ r]) (simp add: copyWords_def and_then_def substr0_def)
qed

text \<open>moveCursorBackwardWord: what it returns when it returns, and where it does not.\<close>

lemma models_deref_cursor:
  assumes "models s txt k"
  shows "\<exists>a c. deref (heap s) (cursor s) = Inr (a, c)" and "cursor s \<noteq> None"
proof -
  from assms obtain e es where es: "buffer_at s (e # es) k" by (rule modelsE)
  then obtain c where "deref (heap s) (cursor s) = Inr (fst ((e # es) ! k), c)"
    by (rule buffer_at_deref)
  then show "\<exists>a c. deref (heap s) (cursor s) = Inr (a, c)" by blast
  from es show "cursor s \<noteq> None" by (simp add: buffer_at_def)
qed

lemma moveCursorBackwardWord_loop1_models:
  assumes run: "moveCursorBackwardWord_loop1 s = Some y"
  shows "\<forall>txt k. models s txt k \<longrightarrow>
           (\<exists>s' k'. y = Inr s' \<and> copyString s' = copyString s \<and> models s' txt k')"
proof (rule moveCursorBackwardWord_loop1.raw_induct[where
      P = "\<lambda>s y. \<forall>txt k. models s txt k \<longrightarrow>
           (\<exists>s' k'. y = Inr s' \<and> copyString s' = copyString s \<and> models s' txt k')",
      OF _ run], goal_cases)
  case (1 loop s y)
  show ?case
  proof (intro allI impI)
    fix tx k assume m: "models s tx k"
    from models_deref_cursor[OF m] obtain a c where
      d: "deref (heap s) (cursor s) = Inr (a, c)" and nn: "cursor s \<noteq> None" by blast
    from models_moveCursorBackward[OF m] obtain s1 where
      s1: "moveCursorBackward s = Some (Inr s1)" "copyString s1 = copyString s"
      "models s1 tx (k - 1)" by blast
    show "\<exists>s' k'. y = Inr s' \<and> copyString s' = copyString s \<and> models s' tx k'"
    proof (cases "ch c = SPACE \<or> ch c = NEWLINE")
      case False
      with 1(2) d nn have "y = Inr s" by simp
      with m show ?thesis by blast
    next
      case True
      with 1(2) d nn s1(1) have "loop s1 = Some y" by simp
      from 1(1)[OF this] s1(3) obtain s' k' where
        "y = Inr s'" "copyString s' = copyString s1" "models s' tx k'" by blast
      with s1(2) show ?thesis by auto
    qed
  qed
qed

lemma moveCursorBackwardWord_loop2_models:
  assumes run: "moveCursorBackwardWord_loop2 s = Some y"
  shows "\<forall>txt k. models s txt k \<longrightarrow>
           (\<exists>s' k'. y = Inr s' \<and> copyString s' = copyString s \<and> models s' txt k')"
proof (rule moveCursorBackwardWord_loop2.raw_induct[where
      P = "\<lambda>s y. \<forall>txt k. models s txt k \<longrightarrow>
           (\<exists>s' k'. y = Inr s' \<and> copyString s' = copyString s \<and> models s' txt k')",
      OF _ run], goal_cases)
  case (1 loop s y)
  show ?case
  proof (intro allI impI)
    fix tx k assume m: "models s tx k"
    from models_deref_cursor[OF m] obtain a c where
      d: "deref (heap s) (cursor s) = Inr (a, c)" and nn: "cursor s \<noteq> None" by blast
    from models_moveCursorBackward[OF m] obtain s1 where
      s1: "moveCursorBackward s = Some (Inr s1)" "copyString s1 = copyString s"
      "models s1 tx (k - 1)" by blast
    show "\<exists>s' k'. y = Inr s' \<and> copyString s' = copyString s \<and> models s' tx k'"
    proof (cases "ch c \<noteq> SPACE \<and> ch c \<noteq> NEWLINE")
      case False
      with 1(2) d nn have "y = Inr s" by auto
      with m show ?thesis by blast
    next
      case True
      with 1(2) d nn s1(1) have "loop s1 = Some y" by simp
      from 1(1)[OF this] s1(3) obtain s' k' where
        "y = Inr s'" "copyString s' = copyString s1" "models s' tx k'" by blast
      with s1(2) show ?thesis by auto
    qed
  qed
qed

lemma moveCursorBackwardWord_models:
  assumes "moveCursorBackwardWord s = Some y" and "models s txt k"
  shows "\<exists>s' k'. y = Inr s' \<and> copyString s' = copyString s \<and> models s' txt k'"
proof -
  from assms(1) obtain y1 where y1: "moveCursorBackwardWord_loop1 s = Some y1"
    by (auto simp: moveCursorBackwardWord_def and_then_def split: option.splits)
  from moveCursorBackwardWord_loop1_models[OF y1] assms(2) obtain s1 k1 where
    s1: "y1 = Inr s1" "copyString s1 = copyString s" "models s1 txt k1" by blast
  with assms(1) y1 have "moveCursorBackwardWord_loop2 s1 = Some y"
    by (simp add: moveCursorBackwardWord_def and_then_def)
  from moveCursorBackwardWord_loop2_models[OF this] s1(3) obtain s' k' where
    "y = Inr s'" "copyString s' = copyString s1" "models s' txt k'" by blast
  with s1(2) show ?thesis by auto
qed

text \<open>At the start of the buffer neither loop can leave the dummy cell.\<close>

lemma moveCursorBackwardWord_loop1_stuck:
  assumes "cursor s = start s" and "deref (heap s) (cursor s) = Inr (a, c)"
    and "ch c = SPACE \<or> ch c = NEWLINE"
  shows "moveCursorBackwardWord_loop1 s = None"
proof (rule ccontr)
  assume "moveCursorBackwardWord_loop1 s \<noteq> None"
  then obtain y where run: "moveCursorBackwardWord_loop1 s = Some y" by auto
  have "\<not> (cursor s = start s \<and>
      (\<exists>a c. deref (heap s) (cursor s) = Inr (a, c) \<and> (ch c = SPACE \<or> ch c = NEWLINE)))"
  proof (rule moveCursorBackwardWord_loop1.raw_induct[where
      P = "\<lambda>s y. \<not> (cursor s = start s \<and>
      (\<exists>a c. deref (heap s) (cursor s) = Inr (a, c) \<and> (ch c = SPACE \<or> ch c = NEWLINE)))",
      OF _ run], goal_cases)
    case (1 loop s y)
    show ?case
    proof
      assume *: "cursor s = start s \<and>
        (\<exists>a c. deref (heap s) (cursor s) = Inr (a, c) \<and> (ch c = SPACE \<or> ch c = NEWLINE))"
      then obtain a c where d: "deref (heap s) (cursor s) = Inr (a, c)"
        "ch c = SPACE \<or> ch c = NEWLINE" by blast
      from d(1) have nn: "cursor s \<noteq> None" by (auto dest: deref_Inr)
      from * have "moveCursorBackward s = Some (Inr s)" by (simp add: moveCursorBackward_def)
      with 1(2) d nn have "loop s = Some y" by simp
      from 1(1)[OF this] * show False by blast
    qed
  qed
  with assms show False by blast
qed

lemma moveCursorBackwardWord_loop2_stuck:
  assumes "cursor s = start s" and "deref (heap s) (cursor s) = Inr (a, c)"
    and "ch c \<noteq> SPACE \<and> ch c \<noteq> NEWLINE"
  shows "moveCursorBackwardWord_loop2 s = None"
proof (rule ccontr)
  assume "moveCursorBackwardWord_loop2 s \<noteq> None"
  then obtain y where run: "moveCursorBackwardWord_loop2 s = Some y" by auto
  have "\<not> (cursor s = start s \<and>
      (\<exists>a c. deref (heap s) (cursor s) = Inr (a, c) \<and> ch c \<noteq> SPACE \<and> ch c \<noteq> NEWLINE))"
  proof (rule moveCursorBackwardWord_loop2.raw_induct[where
      P = "\<lambda>s y. \<not> (cursor s = start s \<and>
      (\<exists>a c. deref (heap s) (cursor s) = Inr (a, c) \<and> ch c \<noteq> SPACE \<and> ch c \<noteq> NEWLINE))",
      OF _ run], goal_cases)
    case (1 loop s y)
    show ?case
    proof
      assume *: "cursor s = start s \<and>
        (\<exists>a c. deref (heap s) (cursor s) = Inr (a, c) \<and> ch c \<noteq> SPACE \<and> ch c \<noteq> NEWLINE)"
      then obtain a c where d: "deref (heap s) (cursor s) = Inr (a, c)"
        "ch c \<noteq> SPACE \<and> ch c \<noteq> NEWLINE" by blast
      from d(1) have nn: "cursor s \<noteq> None" by (auto dest: deref_Inr)
      from * have "moveCursorBackward s = Some (Inr s)" by (simp add: moveCursorBackward_def)
      with 1(2) d nn have "loop s = Some y" by simp
      from 1(1)[OF this] * show False by blast
    qed
  qed
  with assms show False by blast
qed

lemma moveCursorBackwardWord_at_start:
  assumes "cursor s = start s" and "deref (heap s) (cursor s) = Inr (a, c)"
  shows "moveCursorBackwardWord s = None"
proof (cases "ch c = SPACE \<or> ch c = NEWLINE")
  case True
  with assms show ?thesis
    by (simp add: moveCursorBackwardWord_def and_then_def moveCursorBackwardWord_loop1_stuck)
next
  case False
  from assms(2) have nn: "cursor s \<noteq> None" by (auto dest: deref_Inr)
  from False assms(2) nn have "moveCursorBackwardWord_loop1 s = Some (Inr s)"
    by (subst moveCursorBackwardWord_loop1.simps) simp
  moreover from False assms have "moveCursorBackwardWord_loop2 s = None"
    by (intro moveCursorBackwardWord_loop2_stuck) auto
  ultimately show ?thesis by (simp add: moveCursorBackwardWord_def and_then_def)
qed


subsection \<open>The cursor invariant and call sequences\<close>

lemma cursor_valid_iff:
  "cursor_valid s \<longleftrightarrow> (\<exists>txt k. buffer_state s txt k \<and> length txt < 2 ^ 31)"
proof
  assume v: "cursor_valid s"
  then obtain tx where tx: "getText s = Some (Inr tx)"
    by (cases "getText s" rule: option.exhaust; cases "the (getText s)")
       (auto simp: cursor_valid_def)
  with v have l: "length tx < 2 ^ 31" by (simp add: cursor_valid_def)
  from v tx obtain k where "getCursor s = Some (Inr k)" "k \<le> length tx"
    by (cases "getCursor s" rule: option.exhaust; cases "the (getCursor s)")
       (auto simp: cursor_valid_def)
  with tx l show "\<exists>txt k. buffer_state s txt k \<and> length txt < 2 ^ 31"
    by (auto simp: buffer_state_def)
next
  assume "\<exists>txt k. buffer_state s txt k \<and> length txt < 2 ^ 31"
  then show "cursor_valid s" by (auto simp: cursor_valid_def buffer_state_def)
qed

lemma buffer_state_cursor_valid:
  "buffer_state s txt k \<Longrightarrow> length txt < 2 ^ 31 \<Longrightarrow> cursor_valid s"
  by (auto simp: cursor_valid_iff)

lemma models_insertCharacter_calls:
  "models s tx k \<Longrightarrow>
   \<exists>s'. insertCharacter_calls xs s = Inr s' \<and> copyString s' = copyString s \<and>
      models s' (take k tx @ xs @ drop k tx) (k + length xs)"
proof (induction xs arbitrary: s tx k)
  case Nil
  then show ?case by simp
next
  case (Cons x xs)
  from Cons.prems have k: "k \<le> length tx" by (rule models_le)
  from models_insertCharacter[OF Cons.prems, of x] obtain s1 where
    s1: "insertCharacter x s = Inr s1" "copyString s1 = copyString s"
    "models s1 (take k tx @ x # drop k tx) (Suc k)" by blast
  from Cons.IH[OF s1(3)] obtain s' where
    s': "insertCharacter_calls xs s1 = Inr s'" "copyString s' = copyString s1"
    "models s' (take (Suc k) (take k tx @ x # drop k tx) @ xs @
       drop (Suc k) (take k tx @ x # drop k tx)) (Suc k + length xs)" by blast
  from s'(3) k have "models s' (take k tx @ (x # xs) @ drop k tx) (k + length (x # xs))"
    by simp
  with s1 s' show ?case by simp
qed


subsection \<open>Every operation on a represented state\<close>

lemma run_models:
  assumes "models s tx k" and "op \<noteq> MoveCursorBackwardWord"
  shows "\<exists>s' tx' k'. run op s = Some (Inr s') \<and> models s' tx' k'"
proof (cases op)
  case MoveCursorForward
  with models_moveCursorForward[OF assms(1)] show ?thesis by auto
next
  case MoveCursorForwardWord
  with models_moveCursorForwardWord[OF assms(1)] show ?thesis by auto
next
  case MoveCursorBackward
  with models_moveCursorBackward[OF assms(1)] show ?thesis by auto
next
  case MoveCursorBackwardWord
  with assms(2) show ?thesis by simp
next
  case MoveCursorToStart
  with models_moveCursorToStart[OF assms(1)] show ?thesis by auto
next
  case MoveCursorToEnd
  with models_moveCursorToEnd[OF assms(1)] show ?thesis by auto
next
  case (InsertCharacter x)
  with models_insertCharacter[OF assms(1), of x] show ?thesis by auto
next
  case (InsertString str)
  with models_insertString[OF assms(1), of str] show ?thesis by auto
next
  case (Copy n)
  from assms(1) have "models (s\<lparr>copyString := take (size_t_of_int n) (drop k tx)\<rparr>) tx k"
    by simp
  moreover from Copy models_copy[OF assms(1), of n]
  have "run op s = Some (Inr (s\<lparr>copyString := take (size_t_of_int n) (drop k tx)\<rparr>))"
    by simp
  ultimately show ?thesis by blast
next
  case (CopyWords n)
  from models_copyWords[OF assms(1), of n] obtain i where
    "copyWords n s = Some (Inr (s\<lparr>copyString := take i (drop k tx)\<rparr>))" by blast
  with CopyWords have "run op s = Some (Inr (s\<lparr>copyString := take i (drop k tx)\<rparr>))"
    by simp
  moreover from assms(1) have "models (s\<lparr>copyString := take i (drop k tx)\<rparr>) tx k"
    by simp
  ultimately show ?thesis by blast
next
  case Paste
  with models_insertString[OF assms(1), of "copyString s"] show ?thesis
    by (auto simp: paste_def)
next
  case DeleteCharacter
  with models_deleteCharacter[OF assms(1)] show ?thesis by auto
next
  case DeleteWord
  with models_deleteWord[OF assms(1)] show ?thesis by auto
qed

lemma run_models_partial:
  assumes "models s tx k" and "run op s = Some r"
  shows "\<exists>s' tx' k'. r = Inr s' \<and> models s' tx' k'"
proof (cases "op = MoveCursorBackwardWord")
  case True
  with assms(2) have "moveCursorBackwardWord s = Some r" by simp
  from moveCursorBackwardWord_models[OF this assms(1)] show ?thesis by blast
next
  case False
  from run_models[OF assms(1) False] assms(2) show ?thesis by auto
qed

lemma models_cursor_valid: "models s tx k \<Longrightarrow> length tx < 2 ^ 31 \<Longrightarrow> cursor_valid s"
  using buffer_state_cursor_valid models_buffer_state by blast

lemma cursor_valid_models: "cursor_valid s \<Longrightarrow> \<exists>tx k. models s tx k"
  by (auto simp: cursor_valid_iff buffer_state_iff)

lemma buffer_state_start:
  assumes "buffer_state s tx 0"
  shows "cursor s = start s" and "\<exists>a c. deref (heap s) (cursor s) = Inr (a, c)"
proof -
  from assms have m: "models s tx 0" by (simp add: buffer_state_iff)
  then obtain e es where es: "buffer_at s (e # es) 0" by (rule modelsE)
  then have "chain (heap s) (start s) (e # es)" "cursor s = Some (fst e)"
    by (auto simp: buffer_at_def)
  with chain_hd[of "heap s" "start s" "e # es"] show "cursor s = start s" by simp
  from models_deref_cursor(1)[OF m] show "\<exists>a c. deref (heap s) (cursor s) = Inr (a, c)" .
qed

lemma moveCursorBackwardWord_position_0:
  assumes "buffer_state s tx 0"
  shows "moveCursorBackwardWord s = None"
  using buffer_state_start[OF assms] moveCursorBackwardWord_at_start by blast




subsection \<open>The sample states, and more states where moveCursorBackwardWord does not return\<close>

text \<open>The sample states are the ones the operations build.\<close>

lemma blank_a_buffer_built:
  "map_sum id moveCursorToStart (insertString '' a'' (EditorBuffer CHR ''x'')) = Inr blank_a_buffer"
  by code_simp

lemma hello_world_buffer_built:
  "map_sum id moveCursorToStart (insertString ''hello world'' (EditorBuffer CHR ''x''))
     = Inr hello_world_buffer"
  by code_simp

lemma foo_bar_buffer_built:
  "map_sum id moveCursorToStart (insertString ''foo bar'' (EditorBuffer CHR ''x''))
     = Inr foo_bar_buffer"
  by code_simp

text \<open>
  \<open>moveCursorBackwardWord\<close> does not return either when only a word lies to the left of the
  cursor and the dummy cell holds no blank: the second loop walks back to the dummy cell
  and stays there.
\<close>

lemma moveCursorBackward_same_heap:
  "moveCursorBackward s = Some (Inr s') \<Longrightarrow> heap s' = heap s \<and> start s' = start s"
  by (auto simp: moveCursorBackward_def and_then_def split: if_splits option.splits sum.splits)

lemma models_cursor_ch:
  assumes "models s tx (Suc j)"
  shows "\<exists>a c. deref (heap s) (cursor s) = Inr (a, c) \<and> ch c = tx ! j"
proof -
  from assms obtain e es where es: "buffer_at s (e # es) (Suc j)" "map snd es = tx"
    by (rule modelsE)
  from es(1) obtain c where c: "deref (heap s) (cursor s) = Inr (fst ((e # es) ! Suc j), c)"
    "ch c = snd ((e # es) ! Suc j)" by (rule buffer_at_deref)
  from es have "j < length es" by (simp add: buffer_at_def)
  with c es(2) show ?thesis by auto
qed

lemma moveCursorBackwardWord_loop2_word_only:
  "models s tx k \<Longrightarrow> \<forall>x\<in>set (take k tx). \<not> blank x \<Longrightarrow>
   deref (heap s) (start s) = Inr (a, d) \<Longrightarrow> \<not> blank (ch d) \<Longrightarrow>
   moveCursorBackwardWord_loop2 s = None"
proof (induction k arbitrary: s)
  case 0
  from 0(1) have "buffer_state s tx 0" by (rule models_buffer_state)
  from buffer_state_start(1)[OF this] 0(3,4) show ?case
    by (intro moveCursorBackwardWord_loop2_stuck[of s a d]) (auto simp: blank_def)
next
  case (Suc j)
  from Suc.prems(1) have j: "j < length tx" using models_le by fastforce
  from models_cursor_ch[OF Suc.prems(1)] obtain b c where
    c: "deref (heap s) (cursor s) = Inr (b, c)" "ch c = tx ! j" by blast
  from j Suc.prems(2) have nb: "\<not> blank (tx ! j)"
    by (auto simp: take_Suc_conv_app_nth)
  from models_moveCursorBackward[OF Suc.prems(1)] obtain s1 where
    s1: "moveCursorBackward s = Some (Inr s1)" "models s1 tx j" by auto
  from moveCursorBackward_same_heap[OF s1(1)] Suc.prems(3)
  have d1: "deref (heap s1) (start s1) = Inr (a, d)" by simp
  from j Suc.prems(2) have "\<forall>x\<in>set (take j tx). \<not> blank x"
    by (auto simp: take_Suc_conv_app_nth)
  from Suc.IH[OF s1(2) this d1 Suc.prems(4)] have "moveCursorBackwardWord_loop2 s1 = None" .
  moreover from c have "cursor s \<noteq> None" by (auto dest: deref_Inr)
  ultimately show ?case using c nb s1(1)
    by (subst moveCursorBackwardWord_loop2.simps) (simp add: blank_def)
qed

lemma moveCursorBackwardWord_word_only:
  assumes "buffer_state s tx k" and "\<forall>x\<in>set (take k tx). \<not> blank x"
    and "deref (heap s) (start s) = Inr (a, d)" and "\<not> blank (ch d)"
  shows "moveCursorBackwardWord s = None"
proof (cases k)
  case 0
  with assms(1) show ?thesis by (simp add: moveCursorBackwardWord_position_0)
next
  case (Suc j)
  from assms(1) have m: "models s tx k" by (simp add: buffer_state_iff)
  with Suc have j: "j < length tx" using models_le by fastforce
  from models_cursor_ch[OF m[unfolded Suc]] obtain b c where
    c: "deref (heap s) (cursor s) = Inr (b, c)" "ch c = tx ! j" by blast
  from j Suc assms(2) have nb: "\<not> blank (tx ! j)"
    by (auto simp: take_Suc_conv_app_nth)
  from c have "cursor s \<noteq> None" by (auto dest: deref_Inr)
  with c nb have "moveCursorBackwardWord_loop1 s = Some (Inr s)"
    by (subst moveCursorBackwardWord_loop1.simps) (simp add: blank_def)
  with moveCursorBackwardWord_loop2_word_only[OF m assms(2,3,4)] show ?thesis
    by (simp add: moveCursorBackwardWord_def and_then_def)
qed

section \<open>The claims\<close>

text \<open>
  C3. For every sequence of fewer than \<open>2^31\<close> \<open>insertCharacter\<close> calls on an initially
  empty buffer, \<open>getText()\<close> afterwards returns the inserted characters in call order, and
  \<open>getCursor()\<close> returns their number. The calls all return, whatever the dummy cell holds.
  The bound is the range of the \<open>int\<close> that \<open>getCursor\<close> counts in.
\<close>

theorem insertCharacter_calls_text_and_cursor:
  assumes "length xs < 2 ^ 31"
  shows "\<exists>s. insertCharacter_calls xs (EditorBuffer junk) = Inr s \<and>
       getText s = Some (Inr xs) \<and> getCursor s = Some (Inr (length xs)) \<and>
       int (length xs) \<le> 2 ^ 31 - 1"
proof -
  have "models (EditorBuffer junk) [] 0"
    using buffer_state_EditorBuffer by (simp add: buffer_state_iff)
  from models_insertCharacter_calls[OF this, of xs] obtain s where
    "insertCharacter_calls xs (EditorBuffer junk) = Inr s" "models s xs (length xs)"
    by auto
  moreover from assms have "int (length xs) \<le> 2 ^ 31 - 1" by simp
  ultimately show ?thesis by (auto simp: models_getText models_getCursor)
qed

theorem insertCharacter_calls_text_and_cursor_witness:
  "length ''abc'' < (2 :: nat) ^ 31 \<and>
   (\<exists>s. insertCharacter_calls ''abc'' (EditorBuffer CHR ''x'') = Inr s \<and>
       getText s = Some (Inr ''abc'') \<and> getCursor s = Some (Inr 3))"
proof -
  have l: "length ''abc'' < (2 :: nat) ^ 31" by simp
  from insertCharacter_calls_text_and_cursor[OF l, of "CHR ''x''"] l show ?thesis
    by (simp add: numeral_3_eq_3)
qed

text \<open>
  C4. In every buffer state and for every character \<open>c\<close>, the sequence
  \<open>insertCharacter(c); moveCursorBackward(); deleteCharacter()\<close> returns, and the text
  after it is the text before the insertion.
\<close>

theorem insert_backward_delete_restores_text:
  assumes "buffer_state s txt k"
  shows "\<exists>s1 s2 s3. insertCharacter c s = Inr s1 \<and> moveCursorBackward s1 = Some (Inr s2) \<and>
     deleteCharacter s2 = Inr s3 \<and> getText s3 = Some (Inr txt) \<and> getText s3 = getText s"
proof -
  from assms have m: "models s txt k" by (simp add: buffer_state_iff)
  then have k: "k \<le> length txt" by (rule models_le)
  from models_insertCharacter[OF m, of c] obtain s1 where
    s1: "insertCharacter c s = Inr s1" "models s1 (take k txt @ c # drop k txt) (Suc k)"
    by blast
  from models_moveCursorBackward[OF s1(2)] obtain s2 where
    s2: "moveCursorBackward s1 = Some (Inr s2)" "models s2 (take k txt @ c # drop k txt) k"
    by auto
  from models_deleteCharacter[OF s2(2)] obtain s3 where
    s3: "deleteCharacter s2 = Inr s3"
    "models s3 (take k (take k txt @ c # drop k txt) @ drop (Suc k) (take k txt @ c # drop k txt)) k"
    by blast
  from s3(2) k have "models s3 txt k" by simp
  then have "getText s3 = Some (Inr txt)" by (rule models_getText)
  with s1 s2 s3 models_getText[OF m] show ?thesis by auto
qed

theorem insert_backward_delete_restores_text_witness:
  "buffer_state blank_a_buffer '' a'' 0 \<and>
   (\<exists>s1 s2 s3. insertCharacter CHR ''z'' blank_a_buffer = Inr s1 \<and>
     moveCursorBackward s1 = Some (Inr s2) \<and> deleteCharacter s2 = Inr s3 \<and>
     getText s3 = Some (Inr '' a'') \<and> getText s3 = getText blank_a_buffer)"
proof -
  have h: "buffer_state blank_a_buffer '' a'' 0" by code_simp
  from insert_backward_delete_restores_text[OF h, of "CHR ''z''"] h show ?thesis by simp
qed

text \<open>
  C8. On a buffer whose text is \<open>"hello world"\<close> with the cursor at position 0, one call of
  \<open>moveCursorForwardWord()\<close> leaves the cursor at position 5, and a second call leaves it at
  position 11.
\<close>

theorem moveCursorForwardWord_hello_world:
  assumes "buffer_state s ''hello world'' 0"
  shows "\<exists>s1 s2. moveCursorForwardWord s = Some (Inr s1) \<and> getCursor s1 = Some (Inr 5) \<and>
     moveCursorForwardWord s1 = Some (Inr s2) \<and> getCursor s2 = Some (Inr 11)"
proof -
  from assms have m: "models s ''hello world'' 0" by (simp add: buffer_state_iff)
  have w0: "word_end ''hello world'' 0 = 5"
    by (simp add: word_end_def blank_def SPACE_def NEWLINE_def)
  have w5: "word_end ''hello world'' 5 = 11"
    by (simp add: word_end_def blank_def SPACE_def NEWLINE_def)
  from models_moveCursorForwardWord[OF m] w0 obtain s1 where
    s1: "moveCursorForwardWord s = Some (Inr s1)" "models s1 ''hello world'' 5" by auto
  from models_moveCursorForwardWord[OF s1(2)] w5 obtain s2 where
    s2: "moveCursorForwardWord s1 = Some (Inr s2)" "models s2 ''hello world'' 11" by auto
  from s1 s2 show ?thesis by (auto simp: models_getCursor)
qed

theorem moveCursorForwardWord_hello_world_witness:
  "buffer_state hello_world_buffer ''hello world'' 0 \<and>
   (\<exists>s1 s2. moveCursorForwardWord hello_world_buffer = Some (Inr s1) \<and>
     getCursor s1 = Some (Inr 5) \<and>
     moveCursorForwardWord s1 = Some (Inr s2) \<and> getCursor s2 = Some (Inr 11))"
proof -
  have h: "buffer_state hello_world_buffer ''hello world'' 0" by code_simp
  from moveCursorForwardWord_hello_world[OF h] h show ?thesis by simp
qed

text \<open>
  C9. On a buffer whose text is \<open>"foo bar"\<close> with the cursor at position 0, \<open>deleteWord()\<close>
  leaves the text \<open>" bar"\<close> and the cursor at position 0.
\<close>

theorem deleteWord_foo_bar:
  assumes "buffer_state s ''foo bar'' 0"
  shows "\<exists>s'. deleteWord s = Some (Inr s') \<and> getText s' = Some (Inr '' bar'') \<and>
     getCursor s' = Some (Inr 0)"
proof -
  from assms have m: "models s ''foo bar'' 0" by (simp add: buffer_state_iff)
  have "take 0 ''foo bar'' @ dropWhile (\<lambda>x. \<not> blank x) (dropWhile blank (drop 0 ''foo bar''))
      = '' bar''"
    by (simp add: blank_def SPACE_def NEWLINE_def)
  with models_deleteWord[OF m] obtain s' where
    "deleteWord s = Some (Inr s')" "models s' '' bar'' 0" by auto
  then show ?thesis by (auto simp: models_getText models_getCursor)
qed

theorem deleteWord_foo_bar_witness:
  "buffer_state foo_bar_buffer ''foo bar'' 0 \<and>
   (\<exists>s'. deleteWord foo_bar_buffer = Some (Inr s') \<and> getText s' = Some (Inr '' bar'') \<and>
     getCursor s' = Some (Inr 0))"
proof -
  have h: "buffer_state foo_bar_buffer ''foo bar'' 0" by code_simp
  from deleteWord_foo_bar[OF h] h show ?thesis by simp
qed

text \<open>
  C6. In every buffer state and for every \<open>nChars \<ge> 0\<close>, \<open>copy(nChars)\<close> returns without an
  error and sets the clipboard to the next \<open>min(nChars, n)\<close> characters to the right of the
  cursor, where \<open>n\<close> is the number of characters to the right of the cursor; \<open>getText()\<close> and
  \<open>getCursor()\<close> are unchanged.
\<close>

theorem copy_clamps:
  assumes "buffer_state s txt k" and "0 \<le> sint nChars"
  shows "\<exists>s'. copy nChars s = Some (Inr s') \<and>
     copyString s' = take (min (nat (sint nChars)) (length txt - k)) (drop k txt) \<and>
     getText s' = Some (Inr txt) \<and> getCursor s' = Some (Inr k)"
proof -
  from assms(1) have m: "models s txt k" by (simp add: buffer_state_iff)
  let ?s' = "s\<lparr>copyString := take (size_t_of_int nChars) (drop k txt)\<rparr>"
  from m have "models ?s' txt k" by simp
  then have "getText ?s' = Some (Inr txt)" "getCursor ?s' = Some (Inr k)"
    by (simp_all only: models_getText models_getCursor)
  moreover have "copyString ?s' = take (min (nat (sint nChars)) (length txt - k)) (drop k txt)"
    using assms(2) by (simp add: size_t_of_int_nonneg min_def)
  ultimately show ?thesis using models_copy[OF m, of nChars] by blast
qed

theorem copy_clamps_witness:
  "buffer_state hello_world_buffer ''hello world'' 0 \<and> 0 \<le> sint (20 :: 32 word) \<and>
   (\<exists>s'. copy 20 hello_world_buffer = Some (Inr s') \<and>
     copyString s' = ''hello world'' \<and>
     getText s' = Some (Inr ''hello world'') \<and> getCursor s' = Some (Inr 0))"
proof -
  have h: "buffer_state hello_world_buffer ''hello world'' 0" by code_simp
  have n: "0 \<le> sint (20 :: 32 word)" by simp
  from copy_clamps[OF h n] h n show ?thesis by simp
qed

text \<open>
  C10. In every buffer state and for every negative \<open>nChars\<close>, \<open>copy(nChars)\<close> returns without
  an error and sets the clipboard to the whole text to the right of the cursor: the
  conversion to \<open>size_t\<close> gives at least \<open>2^64 - 2^31\<close>, which no text in a 64-bit address
  space reaches. \<open>getText()\<close> and \<open>getCursor()\<close> are unchanged.
\<close>

theorem copy_negative_count:
  assumes "buffer_state s txt k" and "sint nChars < 0"
    and "length txt - k \<le> 2 ^ 64 - 2 ^ 31"
  shows "\<exists>s'. copy nChars s = Some (Inr s') \<and> copyString s' = drop k txt \<and>
     getText s' = Some (Inr txt) \<and> getCursor s' = Some (Inr k)"
proof -
  from assms(1) have m: "models s txt k" by (simp add: buffer_state_iff)
  let ?s' = "s\<lparr>copyString := take (size_t_of_int nChars) (drop k txt)\<rparr>"
  from m have "models ?s' txt k" by simp
  then have "getText ?s' = Some (Inr txt)" "getCursor ?s' = Some (Inr k)"
    by (simp_all only: models_getText models_getCursor)
  moreover from size_t_of_int_neg[OF assms(2)] assms(3)
  have "length (drop k txt) \<le> size_t_of_int nChars" by simp
  then have "copyString ?s' = drop k txt" by simp
  ultimately show ?thesis using models_copy[OF m, of nChars] by blast
qed

theorem copy_negative_count_witness:
  "buffer_state hello_world_buffer ''hello world'' 0 \<and> sint (- 1 :: 32 word) < 0 \<and>
   length ''hello world'' - 0 \<le> (2 :: nat) ^ 64 - 2 ^ 31 \<and>
   (\<exists>s'. copy (- 1) hello_world_buffer = Some (Inr s') \<and>
     copyString s' = ''hello world'' \<and>
     getText s' = Some (Inr ''hello world'') \<and> getCursor s' = Some (Inr 0))"
proof -
  have h: "buffer_state hello_world_buffer ''hello world'' 0" by code_simp
  have n: "sint (- 1 :: 32 word) < 0" by simp
  have l: "length ''hello world'' - 0 \<le> (2 :: nat) ^ 64 - 2 ^ 31" by simp
  from copy_negative_count[OF h n l] h n show ?thesis by simp
qed

text \<open>
  C7. In every buffer state, \<open>copy(n)\<close> sets the clipboard to \<open>clip\<close>, the first \<open>n\<close>
  characters to the right of the cursor (\<open>n\<close> converted to \<open>size_t\<close>, fewer if fewer
  remain). After it \<open>paste()\<close> is \<open>insertString\<close> of the clipboard: it inserts \<open>clip\<close> at the
  cursor, moves the cursor past the inserted text and leaves the clipboard unchanged, so
  that a second \<open>paste()\<close> inserts the same text again. The cursor positions stated are
  below \<open>2^31\<close>, the range of the \<open>int\<close> that \<open>getCursor\<close> counts in.
\<close>

theorem paste_twice:
  assumes "buffer_state s txt k"
    and "clip = take (size_t_of_int n) (drop k txt)"
    and "k + 2 * length clip < 2 ^ 31"
  shows "\<exists>s1 s2 s3.
     copy n s = Some (Inr s1) \<and> copyString s1 = clip \<and>
     getText s1 = Some (Inr txt) \<and> getCursor s1 = Some (Inr k) \<and>
     paste s1 = insertString clip s1 \<and>
     paste s1 = Inr s2 \<and> copyString s2 = clip \<and>
     getText s2 = Some (Inr (take k txt @ clip @ drop k txt)) \<and>
     getCursor s2 = Some (Inr (k + length clip)) \<and>
     paste s2 = Inr s3 \<and> copyString s3 = clip \<and>
     getText s3 = Some (Inr (take k txt @ clip @ clip @ drop k txt)) \<and>
     getCursor s3 = Some (Inr (k + 2 * length clip))"
proof -
  from assms(1) have m: "models s txt k" by (simp add: buffer_state_iff)
  then have k: "k \<le> length txt" by (rule models_le)
  let ?s1 = "s\<lparr>copyString := clip\<rparr>"
  have c: "copy n s = Some (Inr ?s1)" using models_copy[OF m, of n] by (simp add: assms(2))
  from m have m1: "models ?s1 txt k" by simp
  let ?t2 = "take k txt @ clip @ drop k txt"
  from models_insertString[OF m1, of clip] obtain s2 where
    s2: "insertString clip ?s1 = Inr s2" "copyString s2 = clip"
    "models s2 ?t2 (k + length clip)" by auto
  from models_insertString[OF s2(3), of clip] obtain s3 where
    s3: "insertString clip s2 = Inr s3" "copyString s3 = clip"
    "models s3 (take (k + length clip) ?t2 @ clip @ drop (k + length clip) ?t2)
       (k + length clip + length clip)"
    using s2(2) by auto
  from k have "take (k + length clip) ?t2 @ clip @ drop (k + length clip) ?t2
      = take k txt @ clip @ clip @ drop k txt" by simp
  with s3(3) have m3: "models s3 (take k txt @ clip @ clip @ drop k txt) (k + 2 * length clip)"
    by (simp add: mult_2 add.assoc)
  have c1: "copyString ?s1 = clip" by simp
  have p1: "paste ?s1 = insertString clip ?s1" by (simp add: paste_def)
  have p2: "paste ?s1 = Inr s2" using s2(1) by (simp add: paste_def)
  have p3: "paste s2 = Inr s3" using s3(1) s2(2) by (simp add: paste_def)
  note g1 = models_getText[OF m1] models_getCursor[OF m1]
  note g2 = models_getText[OF s2(3)] models_getCursor[OF s2(3)]
  note g3 = models_getText[OF m3] models_getCursor[OF m3]
  show ?thesis
    apply (rule exI[of _ ?s1], rule exI[of _ s2], rule exI[of _ s3])
    apply (intro conjI)
    apply (rule c c1 p1 p2 p3 s2(2) s3(2) g1 g2 g3)+
    done
qed

theorem paste_twice_witness:
  "buffer_state hello_world_buffer ''hello world'' 0 \<and>
   ''hello'' = take (size_t_of_int 5) (drop 0 ''hello world'') \<and>
   0 + 2 * length ''hello'' < (2 :: nat) ^ 31 \<and>
   (\<exists>s1 s2 s3.
     copy 5 hello_world_buffer = Some (Inr s1) \<and> copyString s1 = ''hello'' \<and>
     getText s1 = Some (Inr ''hello world'') \<and> getCursor s1 = Some (Inr 0) \<and>
     paste s1 = insertString ''hello'' s1 \<and>
     paste s1 = Inr s2 \<and> copyString s2 = ''hello'' \<and>
     getText s2 = Some (Inr (take 0 ''hello world'' @ ''hello'' @ drop 0 ''hello world'')) \<and>
     getCursor s2 = Some (Inr (0 + length ''hello'')) \<and>
     paste s2 = Inr s3 \<and> copyString s3 = ''hello'' \<and>
     getText s3 =
       Some (Inr (take 0 ''hello world'' @ ''hello'' @ ''hello'' @ drop 0 ''hello world'')) \<and>
     getCursor s3 = Some (Inr (0 + 2 * length ''hello'')))"
proof -
  have h: "buffer_state hello_world_buffer ''hello world'' 0" by code_simp
  have c: "''hello'' = take (size_t_of_int 5) (drop 0 ''hello world'')"
    by (simp add: size_t_of_int_eq)
  have l: "0 + 2 * length ''hello'' < (2 :: nat) ^ 31" by simp
  from paste_twice[OF h c l] h c l show ?thesis by blast
qed

text \<open>
  C5. The cursor invariant \<open>0 \<le> getCursor() \<le> length(getText())\<close>, for texts shorter than
  \<open>2^31\<close> characters (the range of the \<open>int\<close> that \<open>getCursor\<close> counts in). A new buffer has
  the empty text and the cursor at 0. From a state that satisfies the invariant, every
  operation other than \<open>moveCursorBackwardWord\<close> returns without an error, and whenever any
  operation returns, it returns a state whose text \<open>getText()\<close> returns and which satisfies
  the invariant if that text is shorter than \<open>2^31\<close> characters.
\<close>

theorem cursor_invariant:
  "cursor_valid (EditorBuffer junk) \<and>
   getText (EditorBuffer junk) = Some (Inr []) \<and>
   getCursor (EditorBuffer junk) = Some (Inr 0) \<and>
   (cursor_valid s \<longrightarrow>
      (op \<noteq> MoveCursorBackwardWord \<longrightarrow>
         (\<exists>s' txt'. run op s = Some (Inr s') \<and> getText s' = Some (Inr txt') \<and>
            (length txt' < 2 ^ 31 \<longrightarrow> cursor_valid s'))) \<and>
      (\<forall>r. run op s = Some r \<longrightarrow>
         (\<exists>s' txt'. r = Inr s' \<and> getText s' = Some (Inr txt') \<and>
            (length txt' < 2 ^ 31 \<longrightarrow> cursor_valid s'))))"
proof (intro conjI impI allI)
  note new = buffer_state_EditorBuffer[of junk]
  from new show "cursor_valid (EditorBuffer junk)" by (rule buffer_state_cursor_valid) simp
  from new show "getText (EditorBuffer junk) = Some (Inr [])" by (simp add: buffer_state_def)
  from new show "getCursor (EditorBuffer junk) = Some (Inr 0)" by (simp add: buffer_state_def)
next
  assume "cursor_valid s" and ne: "op \<noteq> MoveCursorBackwardWord"
  then obtain tx k where "models s tx k" using cursor_valid_models by blast
  from run_models[OF this ne] obtain s' tx' k' where
    s': "run op s = Some (Inr s')" "models s' tx' k'" by blast
  from s'(2) have "getText s' = Some (Inr tx')" "length tx' < 2 ^ 31 \<longrightarrow> cursor_valid s'"
    by (auto simp: models_getText models_cursor_valid)
  with s'(1) show "\<exists>s' txt'. run op s = Some (Inr s') \<and> getText s' = Some (Inr txt') \<and>
            (length txt' < 2 ^ 31 \<longrightarrow> cursor_valid s')" by blast
next
  fix r assume "cursor_valid s" and r: "run op s = Some r"
  then obtain tx k where "models s tx k" using cursor_valid_models by blast
  from run_models_partial[OF this r] obtain s' tx' k' where
    s': "r = Inr s'" "models s' tx' k'" by blast
  from s'(2) have "getText s' = Some (Inr tx')" "length tx' < 2 ^ 31 \<longrightarrow> cursor_valid s'"
    by (auto simp: models_getText models_cursor_valid)
  with s'(1) show "\<exists>s' txt'. r = Inr s' \<and> getText s' = Some (Inr txt') \<and>
            (length txt' < 2 ^ 31 \<longrightarrow> cursor_valid s')" by blast
qed

theorem cursor_invariant_witness:
  "cursor_valid hello_world_buffer \<and> DeleteWord \<noteq> MoveCursorBackwardWord \<and>
   (\<exists>s'. run DeleteWord hello_world_buffer = Some (Inr s') \<and>
      getText s' = Some (Inr '' world'') \<and> length '' world'' < (2 :: nat) ^ 31 \<and>
      cursor_valid s')"
proof -
  have h: "cursor_valid hello_world_buffer"
    by (rule buffer_state_cursor_valid[of _ "''hello world''" 0]) (code_simp, simp)
  have e: "map_option (map_sum id getText) (run DeleteWord hello_world_buffer)
      = Some (Inr (Some (Inr '' world'')))" by code_simp
  from cursor_invariant[of "CHR ''x''" hello_world_buffer DeleteWord] h
  obtain s' tx' where s': "run DeleteWord hello_world_buffer = Some (Inr s')"
    "getText s' = Some (Inr tx')" "length tx' < 2 ^ 31 \<longrightarrow> cursor_valid s'"
    by auto
  from e s'(1,2) have "tx' = '' world''" by simp
  with s' h show ?thesis by auto
qed

text \<open>
  C2. \<open>moveCursorBackwardWord\<close> on a new buffer never returns, whatever the dummy cell
  holds: the loops test \<open>cursor != NULL\<close>, which is always true, and \<open>moveCursorBackward\<close>
  leaves the cursor on the dummy cell, so one of the two loops runs forever.
\<close>

theorem moveCursorBackwardWord_new_buffer_diverges:
  "moveCursorBackwardWord (EditorBuffer junk) = None"
  using buffer_state_EditorBuffer by (rule moveCursorBackwardWord_position_0)




end
